theory Spec2Isabelle
  imports Main "HOL-Library.Word"
begin

unbundle bit_operations_syntax

section \<open>The index-tracked queue (src/dro/spsc-queue.hpp)\<close>

text \<open>
  \<^verbatim>\<open>std::size_t\<close> is the 64-bit unsigned integer of the two supported targets
  (x86-64 and arm64); every index computation below wraps as the C++ one does.
  Execution is sequential: an operation runs from its first to its last statement with
  no step of the other thread in between, so a spin loop whose condition only the other
  thread could change never returns, which the model renders as \<open>None\<close>.
\<close>

type_synonym size_t = "64 word"

datatype error = LogicError | OverflowError

text \<open>
  \<^verbatim>\<open>padding = ((cacheLineSize - 1) / sizeof(T)) + 1\<close>. The cache line size comes from
  the platform (\<^verbatim>\<open>std::hardware_destructive_interference_size\<close>, else 64) and
  \<^verbatim>\<open>sizeof(T)\<close> from the element type, so both are parameters here.
\<close>

definition padding :: "size_t \<Rightarrow> size_t \<Rightarrow> size_t" where
  "padding cacheLineSize sizeofT = ((cacheLineSize - 1) div sizeofT) + 1"

definition MAX_SIZE_T :: size_t where
  "MAX_SIZE_T = - 1"

text \<open>
  The queue object: the fields of \<^verbatim>\<open>HeapBuffer\<close> (\<open>capacity_\<close>, \<open>buffer_\<close>, and the
  class constant \<open>padding\<close>), of \<^verbatim>\<open>WriterCacheLine\<close> and of \<^verbatim>\<open>ReaderCacheLine\<close>. A field
  \<^verbatim>\<open>name_\<close> of the source is \<open>name_m\<close> here.
\<close>

record 'a spsc =
  capacity_m :: size_t
  padding_m :: size_t
  buffer_m :: "'a list"
  writeIndex_m :: size_t
  readIndexCache_m :: size_t
  paddingCache_m :: size_t
  readIndex_m :: size_t
  writeIndexCache_m :: size_t
  capacityCache_m :: size_t

text \<open>
  \<^verbatim>\<open>HeapBuffer::HeapBuffer\<close> followed by the body of \<^verbatim>\<open>SPSCQueue::SPSCQueue\<close>.
  The member initialiser \<^verbatim>\<open>capacity_(capacity + 1)\<close> runs first and wraps; then the two
  checks; then \<^verbatim>\<open>buffer_.resize\<close>, which value-initialises every slot (\<open>dflt\<close> is
  \<^verbatim>\<open>T()\<close>). The allocation itself is taken to succeed.
\<close>

definition SPSCQueue :: "size_t \<Rightarrow> size_t \<Rightarrow> size_t \<Rightarrow> 'a \<Rightarrow> error + 'a spsc" where
  "SPSCQueue cacheLineSize sizeofT capacity dflt =
     (let cap1 = capacity + 1;
          pad = padding cacheLineSize sizeofT
      in if capacity < 1 then Inl LogicError
         else if cap1 > MAX_SIZE_T - (2 * pad) then Inl OverflowError
         else Inr \<lparr> capacity_m = cap1,
                    padding_m = pad,
                    buffer_m = replicate (unat (cap1 + (2 * pad))) dflt,
                    writeIndex_m = 0,
                    readIndexCache_m = 0,
                    paddingCache_m = pad,
                    readIndex_m = 0,
                    writeIndexCache_m = 0,
                    capacityCache_m = cap1 \<rparr>)"

text \<open>
  \<^verbatim>\<open>write_value\<close> assigns into \<^verbatim>\<open>buffer_[writeIndex + writer_.paddingCache_]\<close>;
  \<^verbatim>\<open>read_value\<close> yields \<^verbatim>\<open>buffer_[readIndex + padding]\<close>. Elements are plain values
  (copying and moving coincide), so a read leaves the slot as it was.
\<close>

definition write_value :: "'a spsc \<Rightarrow> size_t \<Rightarrow> 'a \<Rightarrow> 'a spsc" where
  "write_value q writeIndex val =
     q\<lparr>buffer_m := (buffer_m q)[unat (writeIndex + paddingCache_m q) := val]\<rparr>"

definition read_value :: "'a spsc \<Rightarrow> size_t \<Rightarrow> 'a" where
  "read_value q readIndex = buffer_m q ! unat (readIndex + padding_m q)"

text \<open>
  The wait loop of \<^verbatim>\<open>emplace\<close>:
  \<^verbatim>\<open>while (nextWriteIndex == writer_.readIndexCache_) writer_.readIndexCache_ = reader_.readIndex_.load();\<close>
\<close>

partial_function (option) emplace_wait :: "'a spsc \<Rightarrow> size_t \<Rightarrow> 'a spsc option" where
  "emplace_wait q nextWriteIndex =
     (if nextWriteIndex = readIndexCache_m q
      then emplace_wait (q\<lparr>readIndexCache_m := readIndex_m q\<rparr>) nextWriteIndex
      else Some q)"

definition emplace :: "'a spsc \<Rightarrow> 'a \<Rightarrow> 'a spsc option" where
  "emplace q val =
     (let writeIndex = writeIndex_m q;
          nextWriteIndex = (if writeIndex = capacity_m q - 1 then 0 else writeIndex + 1)
      in case emplace_wait q nextWriteIndex of
           None \<Rightarrow> None
         | Some q1 \<Rightarrow> Some ((write_value q1 writeIndex val)\<lparr>writeIndex_m := nextWriteIndex\<rparr>))"

definition force_emplace :: "'a spsc \<Rightarrow> 'a \<Rightarrow> 'a spsc" where
  "force_emplace q val =
     (let writeIndex = writeIndex_m q;
          nextWriteIndex = (if writeIndex = capacity_m q - 1 then 0 else writeIndex + 1)
      in (write_value q writeIndex val)\<lparr>writeIndex_m := nextWriteIndex\<rparr>)"

definition try_emplace :: "'a spsc \<Rightarrow> 'a \<Rightarrow> bool \<times> 'a spsc" where
  "try_emplace q val =
     (let writeIndex = writeIndex_m q;
          nextWriteIndex = (if writeIndex = capacity_m q - 1 then 0 else writeIndex + 1)
      in if nextWriteIndex = readIndexCache_m q
         then (let q1 = q\<lparr>readIndexCache_m := readIndex_m q\<rparr>
               in if nextWriteIndex = readIndexCache_m q1
                  then (False, q1)
                  else (True, (write_value q1 writeIndex val)\<lparr>writeIndex_m := nextWriteIndex\<rparr>))
         else (True, (write_value q writeIndex val)\<lparr>writeIndex_m := nextWriteIndex\<rparr>))"

text \<open>\<^verbatim>\<open>push\<close>, \<^verbatim>\<open>force_push\<close> and \<^verbatim>\<open>try_push\<close> forward to the three functions above.\<close>

definition push :: "'a spsc \<Rightarrow> 'a \<Rightarrow> 'a spsc option" where
  "push q val = emplace q val"

definition force_push :: "'a spsc \<Rightarrow> 'a \<Rightarrow> 'a spsc" where
  "force_push q val = force_emplace q val"

definition try_push :: "'a spsc \<Rightarrow> 'a \<Rightarrow> bool \<times> 'a spsc" where
  "try_push q val = try_emplace q val"

text \<open>
  The wait loop of \<^verbatim>\<open>pop\<close>:
  \<^verbatim>\<open>while (readIndex == reader_.writeIndexCache_) reader_.writeIndexCache_ = writer_.writeIndex_.load();\<close>
\<close>

partial_function (option) pop_wait :: "'a spsc \<Rightarrow> size_t \<Rightarrow> 'a spsc option" where
  "pop_wait q readIndex =
     (if readIndex = writeIndexCache_m q
      then pop_wait (q\<lparr>writeIndexCache_m := writeIndex_m q\<rparr>) readIndex
      else Some q)"

text \<open>\<^verbatim>\<open>pop(T &val)\<close>: the new state and the value stored into \<open>val\<close>.\<close>

definition pop :: "'a spsc \<Rightarrow> ('a spsc \<times> 'a) option" where
  "pop q =
     (let readIndex = readIndex_m q
      in case pop_wait q readIndex of
           None \<Rightarrow> None
         | Some q1 \<Rightarrow>
             (let val = read_value q1 readIndex;
                  nextReadIndex = (if readIndex = capacityCache_m q1 - 1 then 0 else readIndex + 1)
              in Some (q1\<lparr>readIndex_m := nextReadIndex\<rparr>, val)))"

text \<open>
  \<^verbatim>\<open>try_pop(T &val)\<close>: the returned flag, the new state and, when the flag is true, the
  value stored into \<open>val\<close> (\<open>None\<close>: \<open>val\<close> is not assigned).
\<close>

definition try_pop :: "'a spsc \<Rightarrow> bool \<times> 'a spsc \<times> 'a option" where
  "try_pop q =
     (let readIndex = readIndex_m q
      in if readIndex = writeIndexCache_m q
         then (let q1 = q\<lparr>writeIndexCache_m := writeIndex_m q\<rparr>
               in if readIndex = writeIndexCache_m q1
                  then (False, q1, None)
                  else (let val = read_value q1 readIndex;
                            nextReadIndex =
                              (if readIndex = capacityCache_m q1 - 1 then 0 else readIndex + 1)
                        in (True, q1\<lparr>readIndex_m := nextReadIndex\<rparr>, Some val)))
         else (let val = read_value q readIndex;
                   nextReadIndex =
                     (if readIndex = capacityCache_m q - 1 then 0 else readIndex + 1)
               in (True, q\<lparr>readIndex_m := nextReadIndex\<rparr>, Some val)))"

definition size_q :: "'a spsc \<Rightarrow> size_t" where
  "size_q q =
     (let writeIndex = writeIndex_m q;
          readIndex = readIndex_m q
      in if writeIndex \<ge> readIndex then writeIndex - readIndex
         else (capacity_m q - readIndex) + writeIndex)"

definition empty_q :: "'a spsc \<Rightarrow> bool" where
  "empty_q q \<longleftrightarrow> writeIndex_m q = readIndex_m q"

definition capacity :: "'a spsc \<Rightarrow> size_t" where
  "capacity q = capacity_m q - 1"

section \<open>The sentinel-tracked queue (src/fast_queue_x86_64.h, src/fast_queue_arm64.h)\<close>

text \<open>
  \<^verbatim>\<open>T\<close> is an 8-byte type with a null value (a pointer): a 64-bit word, \<^verbatim>\<open>nullptr\<close> being 0.
  The template parameter \<^verbatim>\<open>RING_BUFFER_SIZE\<close> is the first argument of every operation.
  Both files declare the same fields; they differ in the initial positions and in \<^verbatim>\<open>pop\<close>.
\<close>

type_synonym ptr = "64 word"

record fastq =
  mReadPosition :: "64 word"
  mWritePosition :: "64 word"
  mExitThread :: "64 word"
  mExitThreadSemaphore :: bool
  mRingBuffer :: "ptr list"

text \<open>The \<^verbatim>\<open>static_assert\<close> on the ring size.\<close>

definition ring_size_ok :: "64 word \<Rightarrow> bool" where
  "ring_size_ok RING_BUFFER_SIZE \<longleftrightarrow> (RING_BUFFER_SIZE AND (RING_BUFFER_SIZE + 1)) = 0"

text \<open>
  The default member initialisers: \<^verbatim>\<open>std::array<AlignedDataObjects, RING_BUFFER_SIZE+1>\<close>
  with \<^verbatim>\<open>mObj = nullptr\<close>; positions 0 on x86-64 and 1 on arm64.
\<close>

definition init_x86 :: "64 word \<Rightarrow> fastq" where
  "init_x86 RING_BUFFER_SIZE =
     \<lparr> mReadPosition = 0, mWritePosition = 0, mExitThread = 0,
       mExitThreadSemaphore = False,
       mRingBuffer = replicate (unat (RING_BUFFER_SIZE + 1)) 0 \<rparr>"

definition init_arm :: "64 word \<Rightarrow> fastq" where
  "init_arm RING_BUFFER_SIZE =
     \<lparr> mReadPosition = 1, mWritePosition = 1, mExitThread = 0,
       mExitThreadSemaphore = False,
       mRingBuffer = replicate (unat (RING_BUFFER_SIZE + 1)) 0 \<rparr>"

text \<open>
  \<^verbatim>\<open>push\<close> of fast_queue_x86_64.h: spin while the target slot is occupied, returning at
  once when the shutdown flag is up; then store and post-increment the write position.
\<close>

partial_function (option) push_x86 :: "64 word \<Rightarrow> fastq \<Rightarrow> ptr \<Rightarrow> fastq option" where
  "push_x86 RING_BUFFER_SIZE q v =
     (if mRingBuffer q ! unat (mWritePosition q AND RING_BUFFER_SIZE) \<noteq> 0
      then (if mExitThreadSemaphore q then Some q
            else push_x86 RING_BUFFER_SIZE q v)
      else Some (q\<lparr>mRingBuffer :=
                      (mRingBuffer q)[unat (mWritePosition q AND RING_BUFFER_SIZE) := v],
                    mWritePosition := mWritePosition q + 1\<rparr>))"

text \<open>\<^verbatim>\<open>push\<close> of fast_queue_arm64.h.\<close>

partial_function (option) push_arm :: "64 word \<Rightarrow> fastq \<Rightarrow> ptr \<Rightarrow> fastq option" where
  "push_arm RING_BUFFER_SIZE q v =
     (if mRingBuffer q ! unat (mWritePosition q AND RING_BUFFER_SIZE) \<noteq> 0
      then (if mExitThreadSemaphore q then Some q
            else push_arm RING_BUFFER_SIZE q v)
      else Some (q\<lparr>mRingBuffer :=
                      (mRingBuffer q)[unat (mWritePosition q AND RING_BUFFER_SIZE) := v],
                    mWritePosition := mWritePosition q + 1\<rparr>))"

text \<open>
  \<^verbatim>\<open>pop(T& aOut)\<close> of fast_queue_x86_64.h: the new state and the value left in \<open>aOut\<close>.
  An empty slot ends the call with null only when the read position is the exit marker
  and the shutdown flag is up; otherwise the loop goes round again.
\<close>

partial_function (option) pop_x86 :: "64 word \<Rightarrow> fastq \<Rightarrow> (fastq \<times> ptr) option" where
  "pop_x86 RING_BUFFER_SIZE q =
     (let aOut = mRingBuffer q ! unat (mReadPosition q AND RING_BUFFER_SIZE)
      in if aOut = 0
         then (if mExitThread q = mReadPosition q \<and> mExitThreadSemaphore q
               then Some (q, 0)
               else pop_x86 RING_BUFFER_SIZE q)
         else Some (q\<lparr>mRingBuffer :=
                         (mRingBuffer q)[unat (mReadPosition q AND RING_BUFFER_SIZE) := 0],
                       mReadPosition := mReadPosition q + 1\<rparr>, aOut))"

text \<open>
  \<^verbatim>\<open>pop(T& aOut)\<close> of fast_queue_arm64.h: the empty-slot test compares the exit marker
  with the read position and does not read the shutdown flag.
\<close>

partial_function (option) pop_arm :: "64 word \<Rightarrow> fastq \<Rightarrow> (fastq \<times> ptr) option" where
  "pop_arm RING_BUFFER_SIZE q =
     (let aOut = mRingBuffer q ! unat (mReadPosition q AND RING_BUFFER_SIZE)
      in if aOut = 0
         then (if mExitThread q = mReadPosition q
               then Some (q, 0)
               else pop_arm RING_BUFFER_SIZE q)
         else Some (q\<lparr>mRingBuffer :=
                         (mRingBuffer q)[unat (mReadPosition q AND RING_BUFFER_SIZE) := 0],
                       mReadPosition := mReadPosition q + 1\<rparr>, aOut))"

text \<open>\<^verbatim>\<open>stopQueue\<close>, the same statements in both files.\<close>

definition stopQueue :: "fastq \<Rightarrow> fastq" where
  "stopQueue q = q\<lparr>mExitThread := mWritePosition q, mExitThreadSemaphore := True\<rparr>"

section \<open>Call sequences\<close>

text \<open>
  A caller that pushes a list of values one after the other, and one that pops \<open>n\<close> times
  and collects the values; \<open>None\<close> when one of the calls never returns.
\<close>

fun push_all :: "('s \<Rightarrow> 'v \<Rightarrow> 's option) \<Rightarrow> 's \<Rightarrow> 'v list \<Rightarrow> 's option" where
  "push_all pushf q [] = Some q"
| "push_all pushf q (v # vs) =
     (case pushf q v of None \<Rightarrow> None | Some q1 \<Rightarrow> push_all pushf q1 vs)"

fun pop_n :: "('s \<Rightarrow> ('s \<times> 'v) option) \<Rightarrow> 's \<Rightarrow> nat \<Rightarrow> ('s \<times> 'v list) option" where
  "pop_n popf q 0 = Some (q, [])"
| "pop_n popf q (Suc n) =
     (case popf q of
        None \<Rightarrow> None
      | Some (q1, v) \<Rightarrow>
          (case pop_n popf q1 n of None \<Rightarrow> None | Some (q2, vs) \<Rightarrow> Some (q2, v # vs)))"


text \<open>
  The platform constants the index-tracked queue is instantiated with: an element has at
  least one byte, and the cache line size is positive and small against the index range
  (64, 128 or 256 on the supported targets), so that \<^verbatim>\<open>2 * padding\<close> does not wrap.
\<close>

definition platform_ok :: "size_t \<Rightarrow> size_t \<Rightarrow> bool" where
  "platform_ok cacheLineSize sizeofT \<longleftrightarrow>
     0 < sizeofT \<and> 0 < cacheLineSize \<and> cacheLineSize \<le> 2 ^ 32"

text \<open>
  A caller of the index-tracked queue: a list of whole operations run one after the
  other. The result is the final state, the values the queue accepted (in call order)
  and the values it delivered (in call order); \<open>None\<close> when a blocking call never
  returns. A failed \<^verbatim>\<open>try_push\<close> accepts nothing, a failed \<^verbatim>\<open>try_pop\<close> delivers nothing.
\<close>

datatype 'a op = Push 'a | TryPush 'a | ForcePush 'a | Pop | TryPop

fun run_ops :: "'a spsc \<Rightarrow> 'a op list \<Rightarrow> ('a spsc \<times> 'a list \<times> 'a list) option" where
  "run_ops q [] = Some (q, [], [])"
| "run_ops q (Push v # ops) =
     (case push q v of
        None \<Rightarrow> None
      | Some q1 \<Rightarrow>
          (case run_ops q1 ops of
             None \<Rightarrow> None
           | Some (q2, ins, outs) \<Rightarrow> Some (q2, v # ins, outs)))"
| "run_ops q (TryPush v # ops) =
     (case try_push q v of
        (b, q1) \<Rightarrow>
          (case run_ops q1 ops of
             None \<Rightarrow> None
           | Some (q2, ins, outs) \<Rightarrow> Some (q2, (if b then v # ins else ins), outs)))"
| "run_ops q (ForcePush v # ops) =
     (case run_ops (force_push q v) ops of
        None \<Rightarrow> None
      | Some (q2, ins, outs) \<Rightarrow> Some (q2, v # ins, outs))"
| "run_ops q (Pop # ops) =
     (case pop q of
        None \<Rightarrow> None
      | Some (q1, v) \<Rightarrow>
          (case run_ops q1 ops of
             None \<Rightarrow> None
           | Some (q2, ins, outs) \<Rightarrow> Some (q2, ins, v # outs)))"
| "run_ops q (TryPop # ops) =
     (case try_pop q of
        (b, q1, r) \<Rightarrow>
          (case run_ops q1 ops of
             None \<Rightarrow> None
           | Some (q2, ins, outs) \<Rightarrow>
               Some (q2, ins, (case r of None \<Rightarrow> outs | Some v \<Rightarrow> v # outs))))"

fun is_force :: "'a op \<Rightarrow> bool" where
  "is_force (ForcePush v) = True"
| "is_force _ = False"

definition no_force :: "'a op list \<Rightarrow> bool" where
  "no_force ops \<longleftrightarrow> (\<forall>x \<in> set ops. \<not> is_force x)"

text \<open>
  The queue is full when its occupancy is the usable capacity.
\<close>

definition full_q :: "'a spsc \<Rightarrow> bool" where
  "full_q q \<longleftrightarrow> size_q q = capacity q"

text \<open>
  The abstract view of a state: the distance from one ring index to another, the buffer
  position of the \<open>i\<close>-th oldest element, and the queued elements from oldest to newest.
\<close>

definition ring_dist :: "nat \<Rightarrow> nat \<Rightarrow> nat \<Rightarrow> nat" where
  "ring_dist C a b = (if a \<le> b then b - a else C - a + b)"

definition slot_of :: "'a spsc \<Rightarrow> nat \<Rightarrow> nat" where
  "slot_of q i =
     unat (padding_m q) +
       (if unat (readIndex_m q) + i < unat (capacity_m q) then unat (readIndex_m q) + i
        else unat (readIndex_m q) + i - unat (capacity_m q))"

definition contents :: "'a spsc \<Rightarrow> 'a list" where
  "contents q = map (\<lambda>i. buffer_m q ! slot_of q i) [0..<unat (size_q q)]"

text \<open>
  The invariant of the states reached without \<^verbatim>\<open>force_push\<close>: the buffer has its
  constructed length, the four indices are inside the ring, and each shadow index lags
  behind the index it caches (the producer's copy of the read index is at or behind the
  read index, the consumer's copy of the write index at or behind the write index).
\<close>

definition spsc_inv :: "'a spsc \<Rightarrow> bool" where
  "spsc_inv q \<longleftrightarrow>
     2 \<le> unat (capacity_m q)
     \<and> unat (capacity_m q) + 2 * unat (padding_m q) < 2 ^ 64
     \<and> length (buffer_m q) = unat (capacity_m q) + 2 * unat (padding_m q)
     \<and> paddingCache_m q = padding_m q
     \<and> capacityCache_m q = capacity_m q
     \<and> unat (readIndex_m q) < unat (capacity_m q)
     \<and> unat (writeIndex_m q) < unat (capacity_m q)
     \<and> unat (readIndexCache_m q) < unat (capacity_m q)
     \<and> unat (writeIndexCache_m q) < unat (capacity_m q)
     \<and> ring_dist (unat (capacity_m q)) (unat (readIndex_m q)) (unat (writeIndex_m q))
         \<le> ring_dist (unat (capacity_m q)) (unat (readIndexCache_m q)) (unat (writeIndex_m q))
     \<and> ring_dist (unat (capacity_m q)) (unat (readIndex_m q)) (unat (writeIndexCache_m q))
         \<le> ring_dist (unat (capacity_m q)) (unat (readIndex_m q)) (unat (writeIndex_m q))"




text \<open>
  The abstract view of a sentinel-tracked state: the number of queued elements, the ring
  slot of the \<open>i\<close>-th oldest one, the queued elements from oldest to newest, and the
  invariant that exactly the slots of the queued elements are non-null.
\<close>

definition fq_len :: "fastq \<Rightarrow> nat" where
  "fq_len q = unat (mWritePosition q - mReadPosition q)"

definition fq_slot :: "64 word \<Rightarrow> fastq \<Rightarrow> nat \<Rightarrow> nat" where
  "fq_slot R q i = unat ((mReadPosition q + of_nat i) AND R)"

definition fq_contents :: "64 word \<Rightarrow> fastq \<Rightarrow> ptr list" where
  "fq_contents R q = map (\<lambda>i. mRingBuffer q ! fq_slot R q i) [0..<fq_len q]"

definition fq_inv :: "64 word \<Rightarrow> fastq \<Rightarrow> bool" where
  "fq_inv R q \<longleftrightarrow>
     ring_size_ok R \<and> R \<noteq> - 1
     \<and> length (mRingBuffer q) = unat R + 1
     \<and> fq_len q \<le> unat R + 1
     \<and> (\<forall>i < fq_len q. mRingBuffer q ! fq_slot R q i \<noteq> 0)
     \<and> (\<forall>j < length (mRingBuffer q).
           (\<forall>i < fq_len q. fq_slot R q i \<noteq> j) \<longrightarrow> mRingBuffer q ! j = 0)"



section \<open>Word arithmetic on 64 bits\<close>

lemma unat_max64: "unat (- 1 :: 64 word) = 2 ^ 64 - 1"
  by (simp add: unsigned_minus_1_eq_mask mask_eq_exp_minus_1)

lemma unat_lt64: "unat (x :: 64 word) < 2 ^ 64"
  using unsigned_less [of x] by simp

lemma unat_add64:
  "unat x + unat y < 2 ^ 64 \<Longrightarrow> unat (x + y :: 64 word) = unat x + unat y"
  using unat_add_lem [of x y] by simp

lemma unat_inc64: "unat x + 1 < 2 ^ 64 \<Longrightarrow> unat (x + 1 :: 64 word) = unat x + 1"
  using unat_add64 [of x 1] by simp

lemma unat_dec64: "x \<noteq> 0 \<Longrightarrow> unat (x - 1 :: 64 word) = unat x - 1"
  by (rule unat_minus_one)

section \<open>The spin loops\<close>

text \<open>
  Each loop either leaves at once, leaves after one refresh or one test, or goes round
  for ever; the three cases are told apart by the state on entry.
\<close>

lemma emplace_wait_pass: "n \<noteq> readIndexCache_m q \<Longrightarrow> emplace_wait q n = Some q"
  by (subst emplace_wait.simps) simp

lemma emplace_wait_refresh:
  "n = readIndexCache_m q \<Longrightarrow> n \<noteq> readIndex_m q \<Longrightarrow>
   emplace_wait q n = Some (q\<lparr>readIndexCache_m := readIndex_m q\<rparr>)"
  by (subst emplace_wait.simps) (simp add: emplace_wait_pass)

lemma emplace_wait_Some_D:
  assumes "emplace_wait q n = Some q'"
  shows "\<not> (n = readIndexCache_m q \<and> n = readIndex_m q)"
proof (rule emplace_wait.raw_induct
        [where P = "\<lambda>q n q'. \<not> (n = readIndexCache_m q \<and> n = readIndex_m q)", OF _ assms],
       goal_cases)
  case (1 f q n qa)
  show ?case
  proof
    assume eq: "n = readIndexCache_m q \<and> n = readIndex_m q"
    with 1(2) have "f (q\<lparr>readIndexCache_m := readIndex_m q\<rparr>) n = Some qa" by simp
    from 1(1) [OF this] eq show False by auto
  qed
qed

lemma emplace_wait_spin:
  "n = readIndexCache_m q \<Longrightarrow> n = readIndex_m q \<Longrightarrow> emplace_wait q n = None"
  using emplace_wait_Some_D [of q n] by (cases "emplace_wait q n") auto

lemma pop_wait_pass: "n \<noteq> writeIndexCache_m q \<Longrightarrow> pop_wait q n = Some q"
  by (subst pop_wait.simps) simp

lemma pop_wait_refresh:
  "n = writeIndexCache_m q \<Longrightarrow> n \<noteq> writeIndex_m q \<Longrightarrow>
   pop_wait q n = Some (q\<lparr>writeIndexCache_m := writeIndex_m q\<rparr>)"
  by (subst pop_wait.simps) (simp add: pop_wait_pass)

lemma pop_wait_Some_D:
  assumes "pop_wait q n = Some q'"
  shows "\<not> (n = writeIndexCache_m q \<and> n = writeIndex_m q)"
proof (rule pop_wait.raw_induct
        [where P = "\<lambda>q n q'. \<not> (n = writeIndexCache_m q \<and> n = writeIndex_m q)", OF _ assms],
       goal_cases)
  case (1 f q n qa)
  show ?case
  proof
    assume eq: "n = writeIndexCache_m q \<and> n = writeIndex_m q"
    with 1(2) have "f (q\<lparr>writeIndexCache_m := writeIndex_m q\<rparr>) n = Some qa" by simp
    from 1(1) [OF this] eq show False by auto
  qed
qed

lemma pop_wait_spin:
  "n = writeIndexCache_m q \<Longrightarrow> n = writeIndex_m q \<Longrightarrow> pop_wait q n = None"
  using pop_wait_Some_D [of q n] by (cases "pop_wait q n") auto

lemma push_x86_Some_D:
  assumes "push_x86 R q v = Some q'"
  shows "\<not> (mRingBuffer q ! unat (mWritePosition q AND R) \<noteq> 0 \<and> \<not> mExitThreadSemaphore q)"
  by (rule push_x86.raw_induct
        [where P = "\<lambda>R q v q'. \<not> (mRingBuffer q ! unat (mWritePosition q AND R) \<noteq> 0 \<and> \<not> mExitThreadSemaphore q)", OF _ assms])
     (auto split: if_splits)

lemma push_x86_spin:
  "mRingBuffer q ! unat (mWritePosition q AND R) \<noteq> 0 \<Longrightarrow> \<not> mExitThreadSemaphore q \<Longrightarrow>
   push_x86 R q v = None"
  using push_x86_Some_D [of R q v] by (cases "push_x86 R q v") auto

lemma push_x86_abandon:
  "mRingBuffer q ! unat (mWritePosition q AND R) \<noteq> 0 \<Longrightarrow> mExitThreadSemaphore q \<Longrightarrow>
   push_x86 R q v = Some q"
  by (subst push_x86.simps) simp

lemma push_x86_store:
  "mRingBuffer q ! unat (mWritePosition q AND R) = 0 \<Longrightarrow>
   push_x86 R q v = Some (q\<lparr>mRingBuffer := (mRingBuffer q)[unat (mWritePosition q AND R) := v],
                             mWritePosition := mWritePosition q + 1\<rparr>)"
  by (subst push_x86.simps) simp

lemma pop_x86_Some_D:
  assumes "pop_x86 R q = Some r"
  shows "\<not> (mRingBuffer q ! unat (mReadPosition q AND R) = 0 \<and> \<not> (mExitThread q = mReadPosition q \<and> mExitThreadSemaphore q))"
  by (rule pop_x86.raw_induct
        [where P = "\<lambda>R q r. \<not> (mRingBuffer q ! unat (mReadPosition q AND R) = 0 \<and> \<not> (mExitThread q = mReadPosition q \<and> mExitThreadSemaphore q))", OF _ assms])
     (auto split: if_splits simp: Let_def)

lemma pop_x86_spin:
  "mRingBuffer q ! unat (mReadPosition q AND R) = 0 \<Longrightarrow>
   \<not> (mExitThread q = mReadPosition q \<and> mExitThreadSemaphore q) \<Longrightarrow> pop_x86 R q = None"
  using pop_x86_Some_D [of R q] by (cases "pop_x86 R q") auto

lemma pop_x86_eos:
  "mRingBuffer q ! unat (mReadPosition q AND R) = 0 \<Longrightarrow>
   mExitThread q = mReadPosition q \<Longrightarrow> mExitThreadSemaphore q \<Longrightarrow> pop_x86 R q = Some (q, 0)"
  by (subst pop_x86.simps) simp

lemma pop_x86_take:
  "mRingBuffer q ! unat (mReadPosition q AND R) \<noteq> 0 \<Longrightarrow>
   pop_x86 R q = Some (q\<lparr>mRingBuffer := (mRingBuffer q)[unat (mReadPosition q AND R) := 0],
                          mReadPosition := mReadPosition q + 1\<rparr>,
                        mRingBuffer q ! unat (mReadPosition q AND R))"
  by (subst pop_x86.simps) (simp add: Let_def)

lemma push_arm_Some_D:
  assumes "push_arm R q v = Some q'"
  shows "\<not> (mRingBuffer q ! unat (mWritePosition q AND R) \<noteq> 0 \<and> \<not> mExitThreadSemaphore q)"
  by (rule push_arm.raw_induct
        [where P = "\<lambda>R q v q'. \<not> (mRingBuffer q ! unat (mWritePosition q AND R) \<noteq> 0 \<and> \<not> mExitThreadSemaphore q)", OF _ assms])
     (auto split: if_splits)

lemma push_arm_spin:
  "mRingBuffer q ! unat (mWritePosition q AND R) \<noteq> 0 \<Longrightarrow> \<not> mExitThreadSemaphore q \<Longrightarrow>
   push_arm R q v = None"
  using push_arm_Some_D [of R q v] by (cases "push_arm R q v") auto

lemma push_arm_abandon:
  "mRingBuffer q ! unat (mWritePosition q AND R) \<noteq> 0 \<Longrightarrow> mExitThreadSemaphore q \<Longrightarrow>
   push_arm R q v = Some q"
  by (subst push_arm.simps) simp

lemma push_arm_store:
  "mRingBuffer q ! unat (mWritePosition q AND R) = 0 \<Longrightarrow>
   push_arm R q v = Some (q\<lparr>mRingBuffer := (mRingBuffer q)[unat (mWritePosition q AND R) := v],
                             mWritePosition := mWritePosition q + 1\<rparr>)"
  by (subst push_arm.simps) simp

lemma pop_arm_Some_D:
  assumes "pop_arm R q = Some r"
  shows "\<not> (mRingBuffer q ! unat (mReadPosition q AND R) = 0 \<and> mExitThread q \<noteq> mReadPosition q)"
  by (rule pop_arm.raw_induct
        [where P = "\<lambda>R q r. \<not> (mRingBuffer q ! unat (mReadPosition q AND R) = 0 \<and> mExitThread q \<noteq> mReadPosition q)", OF _ assms])
     (auto split: if_splits simp: Let_def)

lemma pop_arm_spin:
  "mRingBuffer q ! unat (mReadPosition q AND R) = 0 \<Longrightarrow>
   mExitThread q \<noteq> mReadPosition q \<Longrightarrow> pop_arm R q = None"
  using pop_arm_Some_D [of R q] by (cases "pop_arm R q") auto

lemma pop_arm_eos:
  "mRingBuffer q ! unat (mReadPosition q AND R) = 0 \<Longrightarrow>
   mExitThread q = mReadPosition q \<Longrightarrow> pop_arm R q = Some (q, 0)"
  by (subst pop_arm.simps) simp

lemma pop_arm_take:
  "mRingBuffer q ! unat (mReadPosition q AND R) \<noteq> 0 \<Longrightarrow>
   pop_arm R q = Some (q\<lparr>mRingBuffer := (mRingBuffer q)[unat (mReadPosition q AND R) := 0],
                          mReadPosition := mReadPosition q + 1\<rparr>,
                        mRingBuffer q ! unat (mReadPosition q AND R))"
  by (subst pop_arm.simps) (simp add: Let_def)

lemma pop_x86_null_D:
  assumes "pop_x86 R q = Some (q', 0)"
  shows "q' = q"
proof (cases "mRingBuffer q ! unat (mReadPosition q AND R) = 0")
  case True
  show ?thesis
  proof (cases "mExitThread q = mReadPosition q \<and> mExitThreadSemaphore q")
    case True
    with \<open>mRingBuffer q ! unat (mReadPosition q AND R) = 0\<close> assms show ?thesis
      by (simp add: pop_x86_eos)
  next
    case False
    with True assms show ?thesis by (simp add: pop_x86_spin)
  qed
next
  case False
  with assms show ?thesis by (simp add: pop_x86_take)
qed

lemma pop_arm_null_D:
  assumes "pop_arm R q = Some (q', 0)"
  shows "q' = q"
proof (cases "mRingBuffer q ! unat (mReadPosition q AND R) = 0")
  case True
  show ?thesis
  proof (cases "mExitThread q = mReadPosition q")
    case True
    with \<open>mRingBuffer q ! unat (mReadPosition q AND R) = 0\<close> assms show ?thesis
      by (simp add: pop_arm_eos)
  next
    case False
    with True assms show ?thesis by (simp add: pop_arm_spin)
  qed
next
  case False
  with assms show ?thesis by (simp add: pop_arm_take)
qed

lemma pop_n_fixed: "popf q = Some (q, v) \<Longrightarrow> pop_n popf q n = Some (q, replicate n v)"
  by (induction n) simp_all


lemma push_variants_equal: "push_x86 R q v = push_arm R q v"
proof (cases "mRingBuffer q ! unat (mWritePosition q AND R) = 0")
  case True
  then show ?thesis by (simp add: push_x86_store push_arm_store)
next
  case False
  then show ?thesis
    by (cases "mExitThreadSemaphore q")
       (simp_all add: push_x86_abandon push_arm_abandon push_x86_spin push_arm_spin)
qed


section \<open>End of stream is persistent\<close>

text \<open>
  C10: in both variants, a \<^verbatim>\<open>pop\<close> that returns the null sentinel leaves the queue state
  (read position, slots and everything else) as it was, and every further \<^verbatim>\<open>pop\<close> with
  no push in between returns null again.
\<close>

theorem C10_end_of_stream_persistent:
  "(pop_x86 R q = Some (q', 0) \<longrightarrow>
      q' = q \<and> (\<forall>n. pop_n (pop_x86 R) q' n = Some (q, replicate n 0)))
   \<and> (pop_arm R q = Some (q', 0) \<longrightarrow>
      q' = q \<and> (\<forall>n. pop_n (pop_arm R) q' n = Some (q, replicate n 0)))"
proof (intro conjI impI allI)
  assume a: "pop_x86 R q = Some (q', 0)"
  then show e: "q' = q" by (rule pop_x86_null_D)
  fix n from a e show "pop_n (pop_x86 R) q' n = Some (q, replicate n 0)"
    by (simp add: pop_n_fixed)
next
  assume a: "pop_arm R q = Some (q', 0)"
  then show e: "q' = q" by (rule pop_arm_null_D)
  fix n from a e show "pop_n (pop_arm R) q' n = Some (q, replicate n 0)"
    by (simp add: pop_n_fixed)
qed


theorem C10_witness:
  "pop_x86 1 (stopQueue (init_x86 1)) = Some (stopQueue (init_x86 1), 0)
   \<and> pop_n (pop_x86 1) (stopQueue (init_x86 1)) 3 = Some (stopQueue (init_x86 1), [0, 0, 0])
   \<and> pop_arm 1 (stopQueue (init_arm 1)) = Some (stopQueue (init_arm 1), 0)
   \<and> pop_n (pop_arm 1) (stopQueue (init_arm 1)) 3 = Some (stopQueue (init_arm 1), [0, 0, 0])"
proof -
  have x: "pop_x86 1 (stopQueue (init_x86 1)) = Some (stopQueue (init_x86 1), 0)"
    by (rule pop_x86_eos) (simp_all add: stopQueue_def init_x86_def)
  have a: "pop_arm 1 (stopQueue (init_arm 1)) = Some (stopQueue (init_arm 1), 0)"
    by (rule pop_arm_eos) (simp_all add: stopQueue_def init_arm_def)
  from C10_end_of_stream_persistent
         [of 1 "stopQueue (init_x86 1)" "stopQueue (init_x86 1)"] x
  have "pop_n (pop_x86 1) (stopQueue (init_x86 1)) 3
          = Some (stopQueue (init_x86 1), replicate 3 0)"
    by blast
  moreover
  from C10_end_of_stream_persistent
         [of 1 "stopQueue (init_arm 1)" "stopQueue (init_arm 1)"] a
  have "pop_n (pop_arm 1) (stopQueue (init_arm 1)) 3
          = Some (stopQueue (init_arm 1), replicate 3 0)"
    by blast
  ultimately show ?thesis using x a by (simp add: numeral_3_eq_3)
qed

section \<open>Construction of the index-tracked queue\<close>

lemma unat_double64: "2 * unat x < 2 ^ 64 \<Longrightarrow> unat (2 * x :: 64 word) = 2 * unat x"
proof -
  assume a: "2 * unat x < 2 ^ 64"
  have "2 * x = x + x" by simp
  moreover have "unat (x + x) = unat x + unat x" using a by (intro unat_add64) simp
  ultimately show ?thesis by simp
qed

lemma padding_bounds:
  assumes "platform_ok cls sz"
  shows "0 < unat (padding cls sz)" and "unat (padding cls sz) \<le> unat cls"
    and "unat (padding cls sz) \<le> 2 ^ 32"
proof -
  from assms have sz: "0 < unat sz" and cls: "cls \<noteq> 0" and b: "unat cls \<le> 2 ^ 32"
    by (auto simp add: platform_ok_def word_less_nat_alt word_le_nat_alt)
  have m1: "unat (cls - 1) = unat cls - 1"
    using cls by (rule unat_dec64)
  have d: "unat ((cls - 1) div sz) = (unat cls - 1) div unat sz"
    by (simp add: unat_div m1)
  have le: "(unat cls - 1) div unat sz \<le> unat cls - 1"
    by (rule div_le_dividend)
  have pos: "0 < unat cls" using cls by (simp add: unat_gt_0)
  have "(unat cls - 1) div unat sz < 2 ^ 32" using le b pos by linarith
  then have "unat ((cls - 1) div sz) + 1 < 2 ^ 64" using d by simp
  then have "unat (((cls - 1) div sz) + 1) = unat ((cls - 1) div sz) + 1"
    by (rule unat_inc64)
  then have e: "unat (padding cls sz) = (unat cls - 1) div unat sz + 1"
    using d by (simp add: padding_def)
  show "0 < unat (padding cls sz)" using e by simp
  show "unat (padding cls sz) \<le> unat cls" using e le pos by linarith
  then show "unat (padding cls sz) \<le> 2 ^ 32" using b by simp
qed


text \<open>
  C4 at the capacity \<^verbatim>\<open>SIZE_MAX\<close>: the padded size \<open>capacity + 1 + 2 * padding\<close> is
  beyond the range of \<^verbatim>\<open>std::size_t\<close>, yet no overflow error is raised. The
  initialiser \<^verbatim>\<open>capacity_(capacity + 1)\<close> has wrapped to 0 before the test
  \<^verbatim>\<open>capacity_ > MAX_SIZE_T - (2 * padding)\<close> reads it, and construction returns a queue
  with \<open>capacity_ = 0\<close> and a buffer of \<open>2 * padding\<close> slots.
\<close>

theorem C4_max_capacity_accepted:
  "unat (- 1 :: size_t) + 1 + 2 * unat (padding cls sz) > unat MAX_SIZE_T
   \<and> SPSCQueue cls sz (- 1) d =
     Inr \<lparr> capacity_m = 0, padding_m = padding cls sz,
           buffer_m = replicate (unat (2 * padding cls sz)) d,
           writeIndex_m = 0, readIndexCache_m = 0, paddingCache_m = padding cls sz,
           readIndex_m = 0, writeIndexCache_m = 0, capacityCache_m = 0 \<rparr>"
  by (simp add: SPSCQueue_def Let_def MAX_SIZE_T_def word_less_nat_alt unat_max64)

text \<open>
  For every other capacity the constructor does what C4 says: a logic error for 0, an
  overflow error exactly when the padded size does not fit, and otherwise a queue.
\<close>

lemma SPSCQueue_ok:
  assumes pl: "platform_ok cls sz"
    and c1: "0 < unat c" and c2: "unat c + 1 + 2 * unat (padding cls sz) < 2 ^ 64"
  shows "SPSCQueue cls sz c (d::'a) =
     Inr \<lparr> capacity_m = c + 1, padding_m = padding cls sz,
           buffer_m = replicate (unat c + 1 + 2 * unat (padding cls sz)) d,
           writeIndex_m = 0, readIndexCache_m = 0, paddingCache_m = padding cls sz,
           readIndex_m = 0, writeIndexCache_m = 0, capacityCache_m = c + 1 \<rparr>"
proof -
  let ?p = "padding cls sz"
  from padding_bounds [OF pl] have pb: "unat ?p \<le> 2 ^ 32" by simp
  then have p2: "unat (2 * ?p) = 2 * unat ?p" by (intro unat_double64) simp
  have "2 * ?p \<le> MAX_SIZE_T" by (simp add: MAX_SIZE_T_def)
  then have sub: "unat (MAX_SIZE_T - 2 * ?p) = 2 ^ 64 - 1 - 2 * unat ?p"
    using p2 by (simp add: unat_sub MAX_SIZE_T_def unat_max64)
  have ci: "unat (c + 1) = unat c + 1" using c2 by (intro unat_inc64) simp
  have cp: "unat (c + 1 + 2 * ?p) = unat c + 1 + 2 * unat ?p"
    using c2 ci p2 unat_add64 [of "c + 1" "2 * ?p"] by simp
  have n1: "\<not> c < 1" using c1 by (simp add: word_less_nat_alt)
  have n2: "\<not> c + 1 > MAX_SIZE_T - 2 * ?p"
    using c2 ci sub by (simp add: word_less_nat_alt)
  show ?thesis using n1 n2 cp by (simp add: SPSCQueue_def Let_def)
qed

lemma SPSCQueue_overflow:
  assumes pl: "platform_ok cls sz"
    and c1: "0 < unat c" and c3: "c \<noteq> - 1"
    and c2: "unat c + 1 + 2 * unat (padding cls sz) \<ge> 2 ^ 64"
  shows "SPSCQueue cls sz c (d::'a) = Inl OverflowError"
proof -
  let ?p = "padding cls sz"
  from padding_bounds [OF pl] have pb: "unat ?p \<le> 2 ^ 32" by simp
  then have p2: "unat (2 * ?p) = 2 * unat ?p" by (intro unat_double64) simp
  have "2 * ?p \<le> MAX_SIZE_T" by (simp add: MAX_SIZE_T_def)
  then have sub: "unat (MAX_SIZE_T - 2 * ?p) = 2 ^ 64 - 1 - 2 * unat ?p"
    using p2 by (simp add: unat_sub MAX_SIZE_T_def unat_max64)
  have "unat c \<noteq> 2 ^ 64 - 1" using c3 unat_max64 by (metis word_unat_eq_iff)
  then have "unat c + 1 < 2 ^ 64" using unat_lt64 [of c] by linarith
  then have ci: "unat (c + 1) = unat c + 1" by (rule unat_inc64)
  have n1: "\<not> c < 1" using c1 by (simp add: word_less_nat_alt)
  have n2: "c + 1 > MAX_SIZE_T - 2 * ?p"
    using c2 ci sub by (simp add: word_less_nat_alt)
  show ?thesis using n1 n2 by (simp add: SPSCQueue_def Let_def)
qed

lemma SPSCQueue_zero: "SPSCQueue cls sz 0 d = Inl LogicError"
  by (simp add: SPSCQueue_def Let_def)

section \<open>Ring indices as natural numbers\<close>

lemma next_unat:
  assumes "unat x < unat cap"
  shows "unat (if x = cap - 1 then 0 else x + 1 :: 64 word) =
         (if unat x + 1 = unat cap then 0 else unat x + 1)"
proof -
  from assms have c0: "cap \<noteq> 0" by (auto simp: unat_eq_zero)
  have d: "unat (cap - 1) = unat cap - 1" using c0 by (rule unat_dec64)
  have e: "x = cap - 1 \<longleftrightarrow> unat x + 1 = unat cap"
    using d assms by (auto simp: word_unat_eq_iff)
  show ?thesis
  proof (cases "x = cap - 1")
    case True
    then show ?thesis using e by simp
  next
    case False
    then have "unat x + 1 < unat cap" using e assms by linarith
    then have "unat x + 1 < 2 ^ 64" using unat_lt64 [of cap] by linarith
    then have "unat (x + 1) = unat x + 1" by (rule unat_inc64)
    then show ?thesis using False e by simp
  qed
qed

lemma size_unat:
  assumes "unat (readIndex_m q) < unat (capacity_m q)" "unat (writeIndex_m q) < unat (capacity_m q)"
  shows "unat (size_q q) =
     ring_dist (unat (capacity_m q)) (unat (readIndex_m q)) (unat (writeIndex_m q))"
proof (cases "readIndex_m q \<le> writeIndex_m q")
  case True
  then show ?thesis
    by (simp add: size_q_def Let_def ring_dist_def unat_sub word_le_nat_alt)
next
  case False
  have a: "unat (capacity_m q - readIndex_m q) = unat (capacity_m q) - unat (readIndex_m q)"
    using assms by (intro unat_sub) (simp add: word_le_nat_alt)
  have "unat (capacity_m q) - unat (readIndex_m q) + unat (writeIndex_m q) < 2 ^ 64"
    using False assms unat_lt64 [of "capacity_m q"] by (simp add: word_le_nat_alt)
  then have "unat (capacity_m q - readIndex_m q + writeIndex_m q) =
        unat (capacity_m q) - unat (readIndex_m q) + unat (writeIndex_m q)"
    using a unat_add64 [of "capacity_m q - readIndex_m q" "writeIndex_m q"] by simp
  then show ?thesis using False
    by (simp add: size_q_def Let_def ring_dist_def word_le_nat_alt)
qed

lemma ring_dist_lt: "a < C \<Longrightarrow> b < C \<Longrightarrow> ring_dist C a b < C"
  by (auto simp: ring_dist_def)

lemma ring_dist_empty: "a < C \<Longrightarrow> b < C \<Longrightarrow> ring_dist C a b = 0 \<longleftrightarrow> a = b"
  by (auto simp: ring_dist_def)

lemma ring_dist_full:
  "a < C \<Longrightarrow> b < C \<Longrightarrow>
   ring_dist C a b = C - 1 \<longleftrightarrow> (if b + 1 = C then 0 else b + 1) = a"
  by (auto simp: ring_dist_def)

lemma ring_dist_succ_r:
  "a < C \<Longrightarrow> b < C \<Longrightarrow> ring_dist C a b < C - 1 \<Longrightarrow>
   ring_dist C a (if b + 1 = C then 0 else b + 1) = ring_dist C a b + 1"
  by (auto simp: ring_dist_def)

lemma ring_dist_succ_l:
  "a < C \<Longrightarrow> b < C \<Longrightarrow> 0 < ring_dist C a b \<Longrightarrow>
   ring_dist C (if a + 1 = C then 0 else a + 1) b = ring_dist C a b - 1"
  by (auto simp: ring_dist_def)

lemma wrap_last:
  "a < C \<Longrightarrow> b < C \<Longrightarrow>
   (if a + ring_dist C a b < C then a + ring_dist C a b else a + ring_dist C a b - C) = b"
  by (auto simp: ring_dist_def)

lemma wrap_before:
  "a < C \<Longrightarrow> b < C \<Longrightarrow> i < ring_dist C a b \<Longrightarrow>
   (if a + i < C then a + i else a + i - C) \<noteq> b"
  by (auto simp: ring_dist_def split: if_splits)

lemma wrap_shift:
  "a < (C::nat) \<Longrightarrow> Suc i < C \<Longrightarrow>
   (if (if a + 1 = C then 0 else a + 1) + i < C then (if a + 1 = C then 0 else a + 1) + i
    else (if a + 1 = C then 0 else a + 1) + i - C)
   = (if a + Suc i < C then a + Suc i else a + Suc i - C)"
  by auto

lemma wrap_lt: "a < C \<Longrightarrow> i < C \<Longrightarrow> (if a + i < C then a + i else a + i - C) < (C::nat)"
  by auto

section \<open>Effect of the index-tracked operations on the queued elements\<close>

lemma unat_neq: "x \<noteq> y \<Longrightarrow> unat x \<noteq> unat (y :: 64 word)"
  by (simp add: word_unat_eq_iff)

lemma refresh_read_cache_inv:
  "spsc_inv q \<Longrightarrow> spsc_inv (q\<lparr>readIndexCache_m := readIndex_m q\<rparr>)"
  by (simp add: spsc_inv_def)

lemma refresh_read_cache_contents:
  "contents (q\<lparr>readIndexCache_m := readIndex_m q\<rparr>) = contents q"
  by (simp add: contents_def slot_of_def size_q_def Let_def)

lemma refresh_write_cache_inv:
  "spsc_inv q \<Longrightarrow> spsc_inv (q\<lparr>writeIndexCache_m := writeIndex_m q\<rparr>)"
  by (simp add: spsc_inv_def)

lemma refresh_write_cache_contents:
  "contents (q\<lparr>writeIndexCache_m := writeIndex_m q\<rparr>) = contents q"
  by (simp add: contents_def slot_of_def size_q_def Let_def)

lemma inv_size:
  assumes "spsc_inv q"
  shows "unat (size_q q) =
     ring_dist (unat (capacity_m q)) (unat (readIndex_m q)) (unat (writeIndex_m q))"
  using assms by (intro size_unat) (simp_all add: spsc_inv_def)

lemma write_commit:
  fixes q :: "'a spsc" and v :: "'a"
  assumes inv: "spsc_inv q"
    and ne: "(if writeIndex_m q = capacity_m q - 1 then 0 else writeIndex_m q + 1)
               \<noteq> readIndexCache_m q"
  defines "q' \<equiv> (write_value q (writeIndex_m q) v)
                   \<lparr>writeIndex_m :=
                      (if writeIndex_m q = capacity_m q - 1 then 0 else writeIndex_m q + 1)\<rparr>"
  shows "spsc_inv q'" and "contents q' = contents q @ [v]"
proof -
  let ?C = "unat (capacity_m q)" and ?P = "unat (padding_m q)"
  let ?r = "unat (readIndex_m q)" and ?w = "unat (writeIndex_m q)"
  let ?rc = "unat (readIndexCache_m q)" and ?wc = "unat (writeIndexCache_m q)"
  let ?w' = "if ?w + 1 = ?C then 0 else ?w + 1"
  from inv have C2: "2 \<le> ?C" and nowrap: "?C + 2 * ?P < 2 ^ 64"
    and len: "length (buffer_m q) = ?C + 2 * ?P"
    and pc: "paddingCache_m q = padding_m q" and cc: "capacityCache_m q = capacity_m q"
    and r: "?r < ?C" and w: "?w < ?C" and rc: "?rc < ?C" and wc: "?wc < ?C"
    and d1: "ring_dist ?C ?r ?w \<le> ring_dist ?C ?rc ?w"
    and d2: "ring_dist ?C ?r ?wc \<le> ring_dist ?C ?r ?w"
    by (simp_all add: spsc_inv_def)
  have nw: "unat (if writeIndex_m q = capacity_m q - 1 then 0 else writeIndex_m q + 1) = ?w'"
    using w by (rule next_unat)
  from unat_neq [OF ne] have ne': "?w' \<noteq> ?rc" unfolding nw .
  have drc: "ring_dist ?C ?rc ?w < ?C - 1"
    using ring_dist_full [OF rc w] ring_dist_lt [OF rc w] ne' by linarith
  then have dr: "ring_dist ?C ?r ?w < ?C - 1" using d1 by linarith
  have w'lt: "?w' < ?C" using w C2 by auto
  have f: "capacity_m q' = capacity_m q" "padding_m q' = padding_m q"
    "paddingCache_m q' = paddingCache_m q" "capacityCache_m q' = capacityCache_m q"
    "readIndex_m q' = readIndex_m q" "readIndexCache_m q' = readIndexCache_m q"
    "writeIndexCache_m q' = writeIndexCache_m q" "unat (writeIndex_m q') = ?w'"
    "length (buffer_m q') = length (buffer_m q)"
    using nw by (simp_all add: q'_def write_value_def)
  have s1: "ring_dist ?C ?r ?w' = ring_dist ?C ?r ?w + 1"
    using r w dr by (rule ring_dist_succ_r)
  have s2: "ring_dist ?C ?rc ?w' = ring_dist ?C ?rc ?w + 1"
    using rc w drc by (rule ring_dist_succ_r)
  show inv': "spsc_inv q'"
    unfolding spsc_inv_def f
    using C2 nowrap len pc cc r w'lt rc wc d1 d2 s1 s2 by simp
  have sz: "unat (size_q q) = ring_dist ?C ?r ?w" using inv by (rule inv_size)
  have sz': "unat (size_q q') = ring_dist ?C ?r ?w + 1"
    using inv_size [OF inv'] s1 by (simp add: f)
  have idx: "unat (writeIndex_m q + paddingCache_m q) = ?w + ?P"
    using w nowrap unat_add64 [of "writeIndex_m q" "padding_m q"] by (simp add: pc)
  have buf: "buffer_m q' = (buffer_m q)[?w + ?P := v]"
    using idx by (simp add: q'_def write_value_def)
  have slot: "slot_of q' i = slot_of q i" for i
    by (simp add: slot_of_def f)
  have old: "buffer_m q' ! slot_of q i = buffer_m q ! slot_of q i"
    if "i < ring_dist ?C ?r ?w" for i
  proof -
    have "(if ?r + i < ?C then ?r + i else ?r + i - ?C) \<noteq> ?w"
      using r w that by (rule wrap_before)
    then have "slot_of q i \<noteq> ?w + ?P" by (simp add: slot_of_def)
    then show ?thesis by (simp add: buf)
  qed
  have last: "buffer_m q' ! slot_of q (ring_dist ?C ?r ?w) = v"
  proof -
    have "slot_of q (ring_dist ?C ?r ?w) = ?w + ?P"
      using wrap_last [OF r w] by (simp add: slot_of_def)
    then show ?thesis using len w by (simp add: buf)
  qed
  show "contents q' = contents q @ [v]"
    using old last by (simp add: contents_def sz sz' slot)
qed

lemma read_commit:
  fixes q :: "'a spsc"
  assumes inv: "spsc_inv q"
    and ne: "readIndex_m q \<noteq> writeIndexCache_m q"
  defines "q' \<equiv> q\<lparr>readIndex_m :=
                      (if readIndex_m q = capacityCache_m q - 1 then 0 else readIndex_m q + 1)\<rparr>"
  shows "spsc_inv q'" and "contents q = read_value q (readIndex_m q) # contents q'"
proof -
  let ?C = "unat (capacity_m q)" and ?P = "unat (padding_m q)"
  let ?r = "unat (readIndex_m q)" and ?w = "unat (writeIndex_m q)"
  let ?rc = "unat (readIndexCache_m q)" and ?wc = "unat (writeIndexCache_m q)"
  let ?r' = "if ?r + 1 = ?C then 0 else ?r + 1"
  from inv have C2: "2 \<le> ?C" and nowrap: "?C + 2 * ?P < 2 ^ 64"
    and len: "length (buffer_m q) = ?C + 2 * ?P"
    and pc: "paddingCache_m q = padding_m q" and cc: "capacityCache_m q = capacity_m q"
    and r: "?r < ?C" and w: "?w < ?C" and rc: "?rc < ?C" and wc: "?wc < ?C"
    and d1: "ring_dist ?C ?r ?w \<le> ring_dist ?C ?rc ?w"
    and d2: "ring_dist ?C ?r ?wc \<le> ring_dist ?C ?r ?w"
    by (simp_all add: spsc_inv_def)
  have nr: "unat (if readIndex_m q = capacityCache_m q - 1 then 0 else readIndex_m q + 1) = ?r'"
    unfolding cc using r by (rule next_unat)
  from unat_neq [OF ne] have "ring_dist ?C ?r ?wc \<noteq> 0"
    using ring_dist_empty [OF r wc] by simp
  then have dwc: "0 < ring_dist ?C ?r ?wc" by simp
  then have dw: "0 < ring_dist ?C ?r ?w" using d2 by linarith
  have r'lt: "?r' < ?C" using r C2 by auto
  have f: "capacity_m q' = capacity_m q" "padding_m q' = padding_m q"
    "paddingCache_m q' = paddingCache_m q" "capacityCache_m q' = capacityCache_m q"
    "writeIndex_m q' = writeIndex_m q" "readIndexCache_m q' = readIndexCache_m q"
    "writeIndexCache_m q' = writeIndexCache_m q" "unat (readIndex_m q') = ?r'"
    "buffer_m q' = buffer_m q"
    using nr by (simp_all add: q'_def)
  have s1: "ring_dist ?C ?r' ?w = ring_dist ?C ?r ?w - 1"
    using r w dw by (rule ring_dist_succ_l)
  have s2: "ring_dist ?C ?r' ?wc = ring_dist ?C ?r ?wc - 1"
    using r wc dwc by (rule ring_dist_succ_l)
  show inv': "spsc_inv q'"
    unfolding spsc_inv_def f
  proof (intro conjI)
    show "ring_dist ?C ?r' ?w \<le> ring_dist ?C ?rc ?w" using s1 d1 by linarith
    show "ring_dist ?C ?r' ?wc \<le> ring_dist ?C ?r' ?w" using s1 s2 d2 by linarith
  qed (use C2 nowrap len pc cc r'lt w rc wc in simp_all)
  have sz: "unat (size_q q) = ring_dist ?C ?r ?w" using inv by (rule inv_size)
  have sz': "unat (size_q q') = ring_dist ?C ?r ?w - 1"
    using inv_size [OF inv'] s1 by (simp add: f)
  have idx: "unat (readIndex_m q + padding_m q) = ?r + ?P"
    using r nowrap unat_add64 [of "readIndex_m q" "padding_m q"] by simp
  have "slot_of q 0 = ?r + ?P" using r by (simp add: slot_of_def)
  then have hd: "buffer_m q ! slot_of q 0 = read_value q (readIndex_m q)"
    unfolding read_value_def idx by simp
  have slot: "slot_of q' i = slot_of q (Suc i)" if "i < ring_dist ?C ?r ?w - 1" for i
  proof -
    have "Suc i < ?C" using that ring_dist_lt [OF r w] by linarith
    with r have
      "(if ?r' + i < ?C then ?r' + i else ?r' + i - ?C)
         = (if ?r + Suc i < ?C then ?r + Suc i else ?r + Suc i - ?C)"
      by (rule wrap_shift)
    then show ?thesis unfolding slot_of_def f by (rule arg_cong)
  qed
  obtain n where n: "ring_dist ?C ?r ?w = Suc n" using dw by (cases "ring_dist ?C ?r ?w") auto
  have "contents q = map (\<lambda>i. buffer_m q ! slot_of q i) [0..<Suc n]"
    by (simp add: contents_def sz n)
  also have "\<dots> = buffer_m q ! slot_of q 0 # map (\<lambda>i. buffer_m q ! slot_of q (Suc i)) [0..<n]"
    by (simp only: upt_conv_Cons [of 0 "Suc n"] list.map map_Suc_upt [symmetric] map_map o_def)
  also have "map (\<lambda>i. buffer_m q ! slot_of q (Suc i)) [0..<n] = contents q'"
    using slot n by (simp add: contents_def sz' f)
  finally show "contents q = read_value q (readIndex_m q) # contents q'"
    by (simp add: hd)
qed

lemma emplace_try_emplace:
  "emplace q v = (case try_emplace q v of (True, q') \<Rightarrow> Some q' | (False, q') \<Rightarrow> None)"
proof -
  let ?n = "if writeIndex_m q = capacity_m q - 1 then 0 else writeIndex_m q + 1"
  consider (pass) "?n \<noteq> readIndexCache_m q"
    | (refresh) "?n = readIndexCache_m q" "?n \<noteq> readIndex_m q"
    | (spin) "?n = readIndexCache_m q" "?n = readIndex_m q"
    by blast
  then show ?thesis
  proof cases
    case pass
    then show ?thesis
      by (simp add: emplace_def try_emplace_def Let_def emplace_wait_pass)
  next
    case refresh
    then show ?thesis
      by (simp add: emplace_def try_emplace_def Let_def emplace_wait_refresh)
  next
    case spin
    then show ?thesis
      by (simp add: emplace_def try_emplace_def Let_def emplace_wait_spin)
  qed
qed

lemma pop_try_pop:
  "pop q = (case try_pop q of (True, q', Some v) \<Rightarrow> Some (q', v) | _ \<Rightarrow> None)"
proof -
  consider (pass) "readIndex_m q \<noteq> writeIndexCache_m q"
    | (refresh) "readIndex_m q = writeIndexCache_m q" "readIndex_m q \<noteq> writeIndex_m q"
    | (spin) "readIndex_m q = writeIndexCache_m q" "readIndex_m q = writeIndex_m q"
    by blast
  then show ?thesis
  proof cases
    case pass
    then show ?thesis
      by (simp add: pop_def try_pop_def Let_def pop_wait_pass)
  next
    case refresh
    then show ?thesis
      by (simp add: pop_def try_pop_def Let_def pop_wait_refresh read_value_def)
  next
    case spin
    then show ?thesis
      by (simp add: pop_def try_pop_def Let_def pop_wait_spin)
  qed
qed

lemma full_iff_next:
  assumes inv: "spsc_inv q"
  shows "full_q q \<longleftrightarrow>
    (if writeIndex_m q = capacity_m q - 1 then 0 else writeIndex_m q + 1) = readIndex_m q"
proof -
  let ?C = "unat (capacity_m q)"
  let ?r = "unat (readIndex_m q)" and ?w = "unat (writeIndex_m q)"
  from inv have C2: "2 \<le> ?C" and r: "?r < ?C" and w: "?w < ?C"
    by (simp_all add: spsc_inv_def)
  have c0: "capacity_m q \<noteq> 0" using C2 by (auto simp: unat_eq_zero)
  have "full_q q \<longleftrightarrow> unat (size_q q) = unat (capacity_m q - 1)"
    by (simp add: full_q_def capacity_def word_unat_eq_iff)
  also have "\<dots> \<longleftrightarrow> ring_dist ?C ?r ?w = ?C - 1"
    by (simp only: inv_size [OF inv] unat_dec64 [OF c0])
  also have "\<dots> \<longleftrightarrow> (if ?w + 1 = ?C then 0 else ?w + 1) = ?r"
    using r w by (rule ring_dist_full)
  also have "\<dots> \<longleftrightarrow>
     unat (if writeIndex_m q = capacity_m q - 1 then 0 else writeIndex_m q + 1) = ?r"
    by (simp only: next_unat [OF w])
  also have "\<dots> \<longleftrightarrow>
     (if writeIndex_m q = capacity_m q - 1 then 0 else writeIndex_m q + 1) = readIndex_m q"
    by (simp only: word_unat_eq_iff)
  finally show ?thesis .
qed

lemma full_next_cache:
  assumes inv: "spsc_inv q" and full: "full_q q"
  shows "(if writeIndex_m q = capacity_m q - 1 then 0 else writeIndex_m q + 1)
           = readIndexCache_m q"
proof -
  let ?C = "unat (capacity_m q)"
  let ?r = "unat (readIndex_m q)" and ?w = "unat (writeIndex_m q)"
  let ?rc = "unat (readIndexCache_m q)"
  from inv have r: "?r < ?C" and w: "?w < ?C" and rc: "?rc < ?C"
    and d1: "ring_dist ?C ?r ?w \<le> ring_dist ?C ?rc ?w"
    by (simp_all add: spsc_inv_def)
  have "(if ?w + 1 = ?C then 0 else ?w + 1) = ?r"
    using full full_iff_next [OF inv] next_unat [OF w] by (simp only:)
  then have "ring_dist ?C ?r ?w = ?C - 1" using ring_dist_full [OF r w] by simp
  then have "ring_dist ?C ?rc ?w = ?C - 1" using d1 ring_dist_lt [OF rc w] by linarith
  then have "(if ?w + 1 = ?C then 0 else ?w + 1) = ?rc" using ring_dist_full [OF rc w] by simp
  then have "unat (if writeIndex_m q = capacity_m q - 1 then 0 else writeIndex_m q + 1) = ?rc"
    by (simp only: next_unat [OF w])
  then show ?thesis by (simp only: word_unat_eq_iff)
qed

lemma try_emplace_full:
  assumes "spsc_inv q" and "full_q q"
  shows "try_emplace q v = (False, q\<lparr>readIndexCache_m := readIndex_m q\<rparr>)"
  using full_next_cache [OF assms] full_iff_next [OF assms(1)] assms(2)
  by (simp add: try_emplace_def Let_def)

lemma try_emplace_ok:
  assumes inv: "spsc_inv q" and nf: "\<not> full_q q"
  shows "\<exists>q'. try_emplace q v = (True, q') \<and> spsc_inv q' \<and> contents q' = contents q @ [v]"
proof -
  let ?n = "if writeIndex_m q = capacity_m q - 1 then 0 else writeIndex_m q + 1"
  from nf have nr: "?n \<noteq> readIndex_m q" using full_iff_next [OF inv] by simp
  show ?thesis
  proof (cases "?n = readIndexCache_m q")
    case False
    have "try_emplace q v = (True, (write_value q (writeIndex_m q) v)\<lparr>writeIndex_m := ?n\<rparr>)"
      using False by (simp add: try_emplace_def Let_def)
    then show ?thesis using write_commit [OF inv False, of v] by simp
  next
    case True
    let ?q1 = "q\<lparr>readIndexCache_m := readIndex_m q\<rparr>"
    have inv1: "spsc_inv ?q1" using inv by (rule refresh_read_cache_inv)
    have ne1: "(if writeIndex_m ?q1 = capacity_m ?q1 - 1 then 0 else writeIndex_m ?q1 + 1)
                 \<noteq> readIndexCache_m ?q1"
      using nr by (auto split: if_splits)
    have "try_emplace q v =
       (True, (write_value ?q1 (writeIndex_m ?q1) v)
          \<lparr>writeIndex_m := (if writeIndex_m ?q1 = capacity_m ?q1 - 1 then 0
                             else writeIndex_m ?q1 + 1)\<rparr>)"
      using True nr by (auto simp add: try_emplace_def Let_def split: if_splits)
    then show ?thesis
      using write_commit [OF inv1 ne1, of v] refresh_read_cache_contents [of q] by simp
  qed
qed

lemma empty_cache:
  assumes inv: "spsc_inv q" and e: "empty_q q"
  shows "readIndex_m q = writeIndexCache_m q"
proof -
  let ?C = "unat (capacity_m q)"
  let ?r = "unat (readIndex_m q)" and ?w = "unat (writeIndex_m q)"
  let ?wc = "unat (writeIndexCache_m q)"
  from inv have r: "?r < ?C" and w: "?w < ?C" and wc: "?wc < ?C"
    and d2: "ring_dist ?C ?r ?wc \<le> ring_dist ?C ?r ?w"
    by (simp_all add: spsc_inv_def)
  from e have "?r = ?w" by (simp add: empty_q_def)
  then have "ring_dist ?C ?r ?w = 0" using ring_dist_empty [OF r w] by simp
  then have "ring_dist ?C ?r ?wc = 0" using d2 by linarith
  then have "?r = ?wc" using ring_dist_empty [OF r wc] by simp
  then show ?thesis by (simp only: word_unat_eq_iff)
qed

lemma try_pop_empty:
  assumes "spsc_inv q" and "empty_q q"
  shows "try_pop q = (False, q\<lparr>writeIndexCache_m := writeIndex_m q\<rparr>, None)"
  using empty_cache [OF assms] assms(2)
  by (simp add: try_pop_def Let_def empty_q_def)

lemma try_pop_ok:
  assumes inv: "spsc_inv q" and ne: "\<not> empty_q q"
  shows "\<exists>q' x. try_pop q = (True, q', Some x) \<and> spsc_inv q' \<and> contents q = x # contents q'"
proof (cases "readIndex_m q = writeIndexCache_m q")
  case False
  have "try_pop q =
     (True, q\<lparr>readIndex_m :=
                 (if readIndex_m q = capacityCache_m q - 1 then 0 else readIndex_m q + 1)\<rparr>,
      Some (read_value q (readIndex_m q)))"
    using False by (simp add: try_pop_def Let_def)
  then show ?thesis using read_commit [OF inv False] by simp
next
  case True
  let ?q1 = "q\<lparr>writeIndexCache_m := writeIndex_m q\<rparr>"
  have inv1: "spsc_inv ?q1" using inv by (rule refresh_write_cache_inv)
  have ne1: "readIndex_m ?q1 \<noteq> writeIndexCache_m ?q1"
    using ne by (auto simp: empty_q_def)
  have "try_pop q =
     (True, ?q1\<lparr>readIndex_m :=
                 (if readIndex_m ?q1 = capacityCache_m ?q1 - 1 then 0
                  else readIndex_m ?q1 + 1)\<rparr>,
      Some (read_value ?q1 (readIndex_m ?q1)))"
    using True ne1 by (auto simp add: try_pop_def Let_def split: if_splits)
  then show ?thesis
    using read_commit [OF inv1 ne1] refresh_write_cache_contents [of q] by simp
qed

lemma try_push_effect:
  assumes inv: "spsc_inv q" and t: "try_push q v = (b, q1)"
  shows "spsc_inv q1" and "contents q1 = contents q @ (if b then [v] else [])"
    and "b \<longleftrightarrow> \<not> full_q q"
proof -
  have "spsc_inv q1 \<and> contents q1 = contents q @ (if b then [v] else []) \<and> (b \<longleftrightarrow> \<not> full_q q)"
  proof (cases "full_q q")
    case True
    then show ?thesis
      using t try_emplace_full [OF inv True, of v] refresh_read_cache_inv [OF inv]
        refresh_read_cache_contents [of q]
      by (auto simp: try_push_def)
  next
    case False
    then show ?thesis
      using t try_emplace_ok [OF inv False, of v] by (auto simp: try_push_def)
  qed
  then show "spsc_inv q1" and "contents q1 = contents q @ (if b then [v] else [])"
    and "b \<longleftrightarrow> \<not> full_q q" by simp_all
qed

lemma push_blocks_iff:
  assumes inv: "spsc_inv q"
  shows "push q v = None \<longleftrightarrow> full_q q"
proof (cases "full_q q")
  case True
  then show ?thesis
    using try_emplace_full [OF inv True, of v] by (simp add: push_def emplace_try_emplace)
next
  case False
  then show ?thesis
    using try_emplace_ok [OF inv False, of v] by (auto simp: push_def emplace_try_emplace)
qed

lemma push_effect:
  assumes inv: "spsc_inv q" and p: "push q v = Some q1"
  shows "spsc_inv q1" and "contents q1 = contents q @ [v]" and "\<not> full_q q"
proof -
  from p have nf: "\<not> full_q q" using push_blocks_iff [OF inv, of v] by auto
  then show "\<not> full_q q" .
  from try_emplace_ok [OF inv nf, of v] p
  show "spsc_inv q1" and "contents q1 = contents q @ [v]"
    by (auto simp: push_def emplace_try_emplace)
qed

lemma try_pop_effect:
  assumes inv: "spsc_inv q" and t: "try_pop q = (b, q1, r)"
  shows "spsc_inv q1"
    and "contents q = (case r of None \<Rightarrow> [] | Some x \<Rightarrow> [x]) @ contents q1"
    and "b \<longleftrightarrow> \<not> empty_q q" and "b \<longleftrightarrow> r \<noteq> None"
proof -
  have "spsc_inv q1 \<and> contents q = (case r of None \<Rightarrow> [] | Some x \<Rightarrow> [x]) @ contents q1
        \<and> (b \<longleftrightarrow> \<not> empty_q q) \<and> (b \<longleftrightarrow> r \<noteq> None)"
  proof (cases "empty_q q")
    case True
    then show ?thesis
      using t try_pop_empty [OF inv True] refresh_write_cache_inv [OF inv]
        refresh_write_cache_contents [of q]
      by auto
  next
    case False
    then show ?thesis
      using t try_pop_ok [OF inv False] by auto
  qed
  then show "spsc_inv q1"
    and "contents q = (case r of None \<Rightarrow> [] | Some x \<Rightarrow> [x]) @ contents q1"
    and "b \<longleftrightarrow> \<not> empty_q q" and "b \<longleftrightarrow> r \<noteq> None" by blast+
qed

lemma pop_blocks_iff:
  assumes inv: "spsc_inv q"
  shows "pop q = None \<longleftrightarrow> empty_q q"
proof (cases "empty_q q")
  case True
  then show ?thesis
    using try_pop_empty [OF inv True] by (simp add: pop_try_pop)
next
  case False
  then show ?thesis
    using try_pop_ok [OF inv False] by (auto simp: pop_try_pop)
qed

lemma pop_effect:
  assumes inv: "spsc_inv q" and p: "pop q = Some (q1, x)"
  shows "spsc_inv q1" and "contents q = x # contents q1" and "\<not> empty_q q"
proof -
  from p have ne: "\<not> empty_q q" using pop_blocks_iff [OF inv] by auto
  then show "\<not> empty_q q" .
  from try_pop_ok [OF inv ne] p
  show "spsc_inv q1" and "contents q = x # contents q1"
    by (auto simp: pop_try_pop)
qed

section \<open>Runs of the index-tracked queue\<close>

lemma constructed:
  assumes pl: "platform_ok cls sz" and c: "c \<noteq> - 1"
    and q0: "SPSCQueue cls sz c (d::'a) = Inr q0"
  shows "q0 = \<lparr> capacity_m = c + 1, padding_m = padding cls sz,
           buffer_m = replicate (unat c + 1 + 2 * unat (padding cls sz)) d,
           writeIndex_m = 0, readIndexCache_m = 0, paddingCache_m = padding cls sz,
           readIndex_m = 0, writeIndexCache_m = 0, capacityCache_m = c + 1 \<rparr>"
    and "0 < unat c" and "unat c + 1 + 2 * unat (padding cls sz) < 2 ^ 64"
    and "unat (c + 1) = unat c + 1"
proof -
  have c0: "c \<noteq> 0" using q0 SPSCQueue_zero [of cls sz d] by auto
  then show pos: "0 < unat c" by (simp add: unat_gt_0)
  show fit: "unat c + 1 + 2 * unat (padding cls sz) < 2 ^ 64"
  proof (rule ccontr)
    assume "\<not> unat c + 1 + 2 * unat (padding cls sz) < 2 ^ 64"
    then have "2 ^ 64 \<le> unat c + 1 + 2 * unat (padding cls sz)" by simp
    from SPSCQueue_overflow [OF pl pos c this, of d] q0 show False by simp
  qed
  from SPSCQueue_ok [OF pl pos fit, of d] q0
  show "q0 = \<lparr> capacity_m = c + 1, padding_m = padding cls sz,
           buffer_m = replicate (unat c + 1 + 2 * unat (padding cls sz)) d,
           writeIndex_m = 0, readIndexCache_m = 0, paddingCache_m = padding cls sz,
           readIndex_m = 0, writeIndexCache_m = 0, capacityCache_m = c + 1 \<rparr>"
    by simp
  show "unat (c + 1) = unat c + 1" using fit by (intro unat_inc64) simp
qed

lemma constructed_inv:
  assumes pl: "platform_ok cls sz" and c: "c \<noteq> - 1"
    and q0: "SPSCQueue cls sz c (d::'a) = Inr q0"
  shows "spsc_inv q0" and "contents q0 = []" and "capacity q0 = c" and "empty_q q0"
    and "readIndex_m q0 = 0" and "writeIndexCache_m q0 = 0"
proof -
  note k = constructed [OF pl c q0]
  show "spsc_inv q0"
    using k(2,3,4) by (simp add: k(1) spsc_inv_def ring_dist_def)
  show "contents q0 = []" by (simp add: k(1) contents_def size_q_def)
  show "capacity q0 = c" by (simp add: k(1) capacity_def)
  show "empty_q q0" by (simp add: k(1) empty_q_def)
  show "readIndex_m q0 = 0" and "writeIndexCache_m q0 = 0" by (simp_all add: k(1))
qed

lemma run_ops_fifo:
  assumes "spsc_inv q" and "no_force ops" and "run_ops q ops = Some (q', ins, outs)"
  shows "spsc_inv q' \<and> contents q @ ins = outs @ contents q'"
  using assms
proof (induction ops arbitrary: q q' ins outs)
  case Nil
  then show ?case by simp
next
  case (Cons a ops)
  from Cons.prems(2) have nf: "no_force ops" and na: "\<not> is_force a"
    by (simp_all add: no_force_def)
  show ?case
  proof (cases a)
    case (Push v)
    with Cons.prems(3) obtain q1 ins1 where
      p: "push q v = Some q1" and r: "run_ops q1 ops = Some (q', ins1, outs)"
      and i: "ins = v # ins1"
      by (auto split: option.splits)
    from push_effect [OF Cons.prems(1) p] Cons.IH [OF _ nf r] i
    show ?thesis by simp
  next
    case (TryPush v)
    with Cons.prems(3) obtain b q1 ins1 where
      p: "try_push q v = (b, q1)" and r: "run_ops q1 ops = Some (q', ins1, outs)"
      and i: "ins = (if b then v # ins1 else ins1)"
      by (auto split: option.splits prod.splits)
    from try_push_effect [OF Cons.prems(1) p] Cons.IH [OF _ nf r] i
    show ?thesis by auto
  next
    case (ForcePush v)
    with na show ?thesis by simp
  next
    case Pop
    with Cons.prems(3) obtain q1 x outs1 where
      p: "pop q = Some (q1, x)" and r: "run_ops q1 ops = Some (q', ins, outs1)"
      and o: "outs = x # outs1"
      by (auto split: option.splits)
    from pop_effect [OF Cons.prems(1) p] Cons.IH [OF _ nf r] o
    show ?thesis by simp
  next
    case TryPop
    with Cons.prems(3) obtain b q1 x outs1 where
      p: "try_pop q = (b, q1, x)" and r: "run_ops q1 ops = Some (q', ins, outs1)"
      and o: "outs = (case x of None \<Rightarrow> outs1 | Some v \<Rightarrow> v # outs1)"
      by (auto split: option.splits prod.splits)
    from try_pop_effect [OF Cons.prems(1) p] Cons.IH [OF _ nf r] o
    show ?thesis by (auto split: option.splits)
  qed
qed

section \<open>Capacity, fullness and the queued elements\<close>

lemma length_contents: "length (contents q) = unat (size_q q)"
  by (simp add: contents_def)

lemma full_iff_length:
  "full_q q \<longleftrightarrow> length (contents q) = unat (capacity q)"
  by (simp add: full_q_def length_contents word_unat_eq_iff)

lemma empty_iff_contents:
  assumes "spsc_inv q"
  shows "empty_q q \<longleftrightarrow> contents q = []"
proof -
  let ?C = "unat (capacity_m q)"
  let ?r = "unat (readIndex_m q)" and ?w = "unat (writeIndex_m q)"
  from assms have r: "?r < ?C" and w: "?w < ?C" by (simp_all add: spsc_inv_def)
  have "contents q = [] \<longleftrightarrow> ring_dist ?C ?r ?w = 0"
    using length_contents [of q] inv_size [OF assms] by auto
  also have "\<dots> \<longleftrightarrow> ?r = ?w" using r w by (rule ring_dist_empty)
  also have "\<dots> \<longleftrightarrow> empty_q q" by (auto simp: empty_q_def word_unat_eq_iff)
  finally show ?thesis by simp
qed

lemma try_push_capacity: "try_push q v = (b, q1) \<Longrightarrow> capacity q1 = capacity q"
  by (auto simp: try_push_def try_emplace_def Let_def write_value_def capacity_def
           split: if_splits)

lemma push_capacity: "push q v = Some q1 \<Longrightarrow> capacity q1 = capacity q"
  using try_push_capacity [of q v]
  by (auto simp: push_def emplace_try_emplace try_push_def split: prod.splits bool.splits)

lemma try_pop_capacity: "try_pop q = (b, q1, r) \<Longrightarrow> capacity q1 = capacity q"
  by (auto simp: try_pop_def Let_def capacity_def split: if_splits)

lemma pop_capacity: "pop q = Some (q1, x) \<Longrightarrow> capacity q1 = capacity q"
  using try_pop_capacity [of q]
  by (auto simp: pop_try_pop split: prod.splits bool.splits option.splits)


lemma force_push_capacity: "capacity (force_push q v) = capacity q"
  by (simp add: force_push_def force_emplace_def Let_def write_value_def capacity_def)

lemma run_ops_capacity:
  "run_ops q ops = Some (q', ins, outs) \<Longrightarrow> capacity q' = capacity q"
proof (induction ops arbitrary: q q' ins outs)
  case Nil
  then show ?case by simp
next
  case (Cons a ops)
  show ?case
  proof (cases a)
    case (Push v)
    with Cons.prems obtain q1 ins1 where
      p: "push q v = Some q1" and r: "run_ops q1 ops = Some (q', ins1, outs)"
      by (auto split: option.splits)
    from Cons.IH [OF r] push_capacity [OF p] show ?thesis by simp
  next
    case (TryPush v)
    with Cons.prems obtain b q1 ins1 where
      p: "try_push q v = (b, q1)" and r: "run_ops q1 ops = Some (q', ins1, outs)"
      by (auto split: option.splits prod.splits)
    from Cons.IH [OF r] try_push_capacity [OF p] show ?thesis by simp
  next
    case (ForcePush v)
    with Cons.prems obtain ins1 where
      r: "run_ops (force_push q v) ops = Some (q', ins1, outs)"
      by (auto split: option.splits)
    from Cons.IH [OF r] force_push_capacity [of q v] show ?thesis by simp
  next
    case Pop
    with Cons.prems obtain q1 x outs1 where
      p: "pop q = Some (q1, x)" and r: "run_ops q1 ops = Some (q', ins, outs1)"
      by (auto split: option.splits)
    from Cons.IH [OF r] pop_capacity [OF p] show ?thesis by simp
  next
    case TryPop
    with Cons.prems obtain b q1 x outs1 where
      p: "try_pop q = (b, q1, x)" and r: "run_ops q1 ops = Some (q', ins, outs1)"
      by (auto split: option.splits prod.splits)
    from Cons.IH [OF r] try_pop_capacity [OF p] show ?thesis by simp
  qed
qed

lemma reachable_inv:
  assumes "platform_ok cls sz" and "c \<noteq> - 1" and "SPSCQueue cls sz c d = Inr q0"
    and "no_force ops" and "run_ops q0 ops = Some (q, ins, outs)"
  shows "spsc_inv q" and "ins = outs @ contents q" and "capacity q = c"
proof -
  note k = constructed_inv [OF assms(1,2,3)]
  from run_ops_fifo [OF k(1) assms(4,5)] k(2)
  show "spsc_inv q" and "ins = outs @ contents q" by simp_all
  from run_ops_capacity [OF assms(5)] k(3) show "capacity q = c" by simp
qed


lemma push_reader_fields:
  assumes "push q v = Some q1"
  shows "readIndex_m q1 = readIndex_m q" and "writeIndexCache_m q1 = writeIndexCache_m q"
    and "padding_m q1 = padding_m q"
  using assms
  by (auto simp: push_def emplace_try_emplace try_emplace_def Let_def write_value_def
           split: if_splits)

lemma push_all_ok:
  assumes "spsc_inv q" and "length (contents q) + length xs \<le> unat (capacity q)"
  shows "\<exists>q'. push_all push q xs = Some q' \<and> spsc_inv q'
              \<and> contents q' = contents q @ xs \<and> capacity q' = capacity q
              \<and> readIndex_m q' = readIndex_m q
              \<and> writeIndexCache_m q' = writeIndexCache_m q"
  using assms
proof (induction xs arbitrary: q)
  case Nil
  then show ?case by simp
next
  case (Cons v xs)
  have "\<not> full_q q" using Cons.prems(2) by (simp add: full_iff_length)
  then obtain q1 where p: "push q v = Some q1"
    using push_blocks_iff [OF Cons.prems(1), of v] by (cases "push q v") auto
  note e = push_effect [OF Cons.prems(1) p]
  have c: "capacity q1 = capacity q" using p by (rule push_capacity)
  have "length (contents q1) + length xs \<le> unat (capacity q1)"
    using e(2) c Cons.prems(2) by simp
  from Cons.IH [OF e(1) this] obtain q' where
    "push_all push q1 xs = Some q'" "spsc_inv q'"
    "contents q' = contents q1 @ xs" "capacity q' = capacity q1"
    "readIndex_m q' = readIndex_m q1" "writeIndexCache_m q' = writeIndexCache_m q1"
    by blast
  then show ?case using p e(2) c push_reader_fields [OF p] by simp
qed

lemma force_push_full:
  assumes inv: "spsc_inv q" and full: "full_q q" and wc: "writeIndexCache_m q = readIndex_m q"
  shows "size_q (force_push q x) = 0" and "empty_q (force_push q x)"
    and "pop (force_push q x) = None" and "fst (try_pop (force_push q x)) = False"
    and "read_value (force_push q x) (readIndex_m (force_push q x)) = hd (contents q)"
proof -
  let ?q2 = "force_push q x"
  let ?C = "unat (capacity_m q)" and ?P = "unat (padding_m q)"
  let ?r = "unat (readIndex_m q)" and ?w = "unat (writeIndex_m q)"
  from inv have C2: "2 \<le> ?C" and nowrap: "?C + 2 * ?P < 2 ^ 64"
    and len: "length (buffer_m q) = ?C + 2 * ?P"
    and pc: "paddingCache_m q = padding_m q"
    and r: "?r < ?C" and w: "?w < ?C"
    by (simp_all add: spsc_inv_def)
  have n: "(if writeIndex_m q = capacity_m q - 1 then 0 else writeIndex_m q + 1) = readIndex_m q"
    using full full_iff_next [OF inv] by simp
  have f: "writeIndex_m ?q2 = readIndex_m q" "readIndex_m ?q2 = readIndex_m q"
    "writeIndexCache_m ?q2 = readIndex_m q" "padding_m ?q2 = padding_m q"
    using n wc by (simp_all add: force_push_def force_emplace_def Let_def write_value_def)
  show "size_q ?q2 = 0" by (simp add: size_q_def f)
  show e: "empty_q ?q2" by (simp add: empty_q_def f)
  have "pop_wait ?q2 (readIndex_m ?q2) = None"
    by (rule pop_wait_spin) (simp_all add: f)
  then show "pop ?q2 = None" by (simp add: pop_def)
  show "fst (try_pop ?q2) = False"
    by (simp add: try_pop_def Let_def f)
  have "(if ?w + 1 = ?C then 0 else ?w + 1) = ?r"
    using n next_unat [OF w] by (simp only:)
  then have wr: "?w \<noteq> ?r" using C2 by (auto split: if_splits)
  have iw: "unat (writeIndex_m q + paddingCache_m q) = ?w + ?P"
    using w nowrap unat_add64 [of "writeIndex_m q" "padding_m q"] by (simp add: pc)
  have ir: "unat (readIndex_m q + padding_m q) = ?r + ?P"
    using r nowrap unat_add64 [of "readIndex_m q" "padding_m q"] by simp
  have buf: "buffer_m ?q2 = (buffer_m q)[?w + ?P := x]"
    using iw by (simp add: force_push_def force_emplace_def Let_def write_value_def)
  have rv: "read_value ?q2 (readIndex_m ?q2) = buffer_m q ! (?r + ?P)"
    unfolding read_value_def f ir buf using wr by simp
  have "0 < length (contents q)"
    using full C2 by (simp add: full_iff_length capacity_def unat_dec64 unat_eq_zero
      unat_gt_0 [symmetric] del: length_greater_0_conv)
  then have "hd (contents q) = contents q ! 0" by (simp add: hd_conv_nth)
  also have "\<dots> = buffer_m q ! slot_of q 0"
    using \<open>0 < length (contents q)\<close> by (simp add: contents_def length_contents)
  also have "slot_of q 0 = ?r + ?P" using r by (simp add: slot_of_def)
  finally show "read_value ?q2 (readIndex_m ?q2) = hd (contents q)" using rv by simp
qed


lemma force_push_stores:
  assumes inv: "spsc_inv q"
  shows "buffer_m (force_push q x) ! (unat (writeIndex_m q) + unat (padding_m q)) = x"
proof -
  let ?C = "unat (capacity_m q)" and ?P = "unat (padding_m q)"
  let ?w = "unat (writeIndex_m q)"
  from inv have nowrap: "?C + 2 * ?P < 2 ^ 64"
    and len: "length (buffer_m q) = ?C + 2 * ?P"
    and pc: "paddingCache_m q = padding_m q" and w: "?w < ?C"
    by (simp_all add: spsc_inv_def)
  have iw: "unat (writeIndex_m q + paddingCache_m q) = ?w + ?P"
    using w nowrap unat_add64 [of "writeIndex_m q" "padding_m q"] by (simp add: pc)
  have "buffer_m (force_push q x) = (buffer_m q)[?w + ?P := x]"
    using iw by (simp add: force_push_def force_emplace_def Let_def write_value_def)
  then show ?thesis using len w by simp
qed


section \<open>Concrete queues\<close>

text \<open>
  Queues of numbers on a target with 64-byte cache lines and 8-byte elements
  (\<open>padding = 8\<close>), with capacity 1 and with capacity 2, and the equations that
  evaluate the operations on concrete states.
\<close>

lemma padding_64_8: "padding 64 8 = 8" by (simp add: padding_def)

lemma construct_64_8_2: "SPSCQueue 64 8 2 (0::nat) =
  Inr \<lparr> capacity_m = 3, padding_m = 8, buffer_m = replicate 19 0,
        writeIndex_m = 0, readIndexCache_m = 0, paddingCache_m = 8,
        readIndex_m = 0, writeIndexCache_m = 0, capacityCache_m = 3 \<rparr>"
  by (simp add: SPSCQueue_def Let_def padding_64_8 MAX_SIZE_T_def)

lemmas eval_spsc = push_def emplace_def force_push_def force_emplace_def try_push_def
  try_emplace_def pop_def try_pop_def Let_def write_value_def read_value_def
  emplace_wait_pass emplace_wait_refresh emplace_wait_spin
  pop_wait_pass pop_wait_refresh pop_wait_spin size_q_def capacity_def full_q_def empty_q_def


lemma platform_64_8: "platform_ok 64 8"
  by (simp add: platform_ok_def)

lemma construct_64_8_1: "SPSCQueue 64 8 1 (0::nat) =
  Inr \<lparr> capacity_m = 2, padding_m = 8, buffer_m = replicate 18 0,
        writeIndex_m = 0, readIndexCache_m = 0, paddingCache_m = 8,
        readIndex_m = 0, writeIndexCache_m = 0, capacityCache_m = 2 \<rparr>"
  by (simp add: SPSCQueue_def Let_def padding_64_8 MAX_SIZE_T_def)


section \<open>Claims about the index-tracked queue\<close>

text \<open>
  C1, as stated, does not hold: at capacity 1, after one push the queue is full
  (\<open>size = capacity = 1\<close>); \<^verbatim>\<open>force_push\<close> then leaves \<open>size() = 0\<close>, not
  \<open>capacity()\<close>, and the next \<^verbatim>\<open>pop\<close> finds the queue empty and waits.
\<close>

theorem C1_counterexample:
  "SPSCQueue 64 8 1 (0::nat) =
     Inr \<lparr> capacity_m = 2, padding_m = 8, buffer_m = replicate 18 0,
           writeIndex_m = 0, readIndexCache_m = 0, paddingCache_m = 8,
           readIndex_m = 0, writeIndexCache_m = 0, capacityCache_m = 2 \<rparr>
   \<and> push_all push
         \<lparr> capacity_m = 2, padding_m = 8, buffer_m = replicate 18 (0::nat),
           writeIndex_m = 0, readIndexCache_m = 0, paddingCache_m = 8,
           readIndex_m = 0, writeIndexCache_m = 0, capacityCache_m = 2 \<rparr> [10]
       = Some \<lparr> capacity_m = 2, padding_m = 8, buffer_m = (replicate 18 0)[8 := 10],
                writeIndex_m = 1, readIndexCache_m = 0, paddingCache_m = 8,
                readIndex_m = 0, writeIndexCache_m = 0, capacityCache_m = 2 \<rparr>
   \<and> size_q \<lparr> capacity_m = 2, padding_m = 8, buffer_m = (replicate 18 (0::nat))[8 := 10],
                writeIndex_m = 1, readIndexCache_m = 0, paddingCache_m = 8,
                readIndex_m = 0, writeIndexCache_m = 0, capacityCache_m = 2 \<rparr> = 1
   \<and> capacity \<lparr> capacity_m = 2, padding_m = 8, buffer_m = (replicate 18 (0::nat))[8 := 10],
                writeIndex_m = 1, readIndexCache_m = 0, paddingCache_m = 8,
                readIndex_m = 0, writeIndexCache_m = 0, capacityCache_m = 2 \<rparr> = 1
   \<and> size_q (force_push
         \<lparr> capacity_m = 2, padding_m = 8, buffer_m = (replicate 18 (0::nat))[8 := 10],
           writeIndex_m = 1, readIndexCache_m = 0, paddingCache_m = 8,
           readIndex_m = 0, writeIndexCache_m = 0, capacityCache_m = 2 \<rparr> 20) = 0
   \<and> pop (force_push
         \<lparr> capacity_m = 2, padding_m = 8, buffer_m = (replicate 18 (0::nat))[8 := 10],
           writeIndex_m = 1, readIndexCache_m = 0, paddingCache_m = 8,
           readIndex_m = 0, writeIndexCache_m = 0, capacityCache_m = 2 \<rparr> 20) = None"
  by (simp add: construct_64_8_1 eval_spsc)


text \<open>
  C1 (amended): for every capacity the constructor accepts (the padded size fitting the
  index type), after filling the fresh queue with \<open>capacity()\<close> pushes (so that
  \<open>size() = capacity()\<close> and the write index stands on the slack slot, index
  \<open>capacity()\<close>), \<^verbatim>\<open>force_push(x)\<close> does not overwrite the oldest element: it writes \<open>x\<close>
  into the slack slot and moves the write index onto the read index. Right after it
  \<open>size()\<close> is 0 and \<open>empty()\<close> is true, \<^verbatim>\<open>try_pop\<close> returns false, a blocking \<^verbatim>\<open>pop\<close>
  finds the queue empty and waits, and the slot at the read index still holds the
  oldest pushed value.
\<close>

theorem C1_force_push_on_full:
  assumes "platform_ok cls sz" and "c \<noteq> - 1" and "SPSCQueue cls sz c d = Inr q0"
    and "length xs = unat (capacity q0)"
  shows "\<exists>q1. push_all push q0 xs = Some q1
           \<and> size_q q1 = capacity q1
           \<and> writeIndex_m q1 = capacity q1
           \<and> buffer_m (force_push q1 x) ! (unat (writeIndex_m q1) + unat (padding_m q1)) = x
           \<and> writeIndex_m (force_push q1 x) = readIndex_m (force_push q1 x)
           \<and> size_q (force_push q1 x) = 0
           \<and> empty_q (force_push q1 x)
           \<and> fst (try_pop (force_push q1 x)) = False
           \<and> pop (force_push q1 x) = None
           \<and> read_value (force_push q1 x) (readIndex_m (force_push q1 x)) = hd xs"
proof -
  note k = constructed_inv [OF assms(1-3)]
  have "length (contents q0) + length xs \<le> unat (capacity q0)"
    using k(2) assms(4) by simp
  from push_all_ok [OF k(1) this] obtain q1 where
    p: "push_all push q0 xs = Some q1" and i: "spsc_inv q1"
    and l: "contents q1 = contents q0 @ xs" and c: "capacity q1 = capacity q0"
    and r: "readIndex_m q1 = readIndex_m q0" and wc: "writeIndexCache_m q1 = writeIndexCache_m q0"
    by blast
  have full: "full_q q1" using l c k(2) assms(4) by (simp add: full_iff_length)
  have wcr: "writeIndexCache_m q1 = readIndex_m q1" using r wc k(5,6) by simp
  note f = force_push_full [OF i full wcr, of x]
  have s: "size_q q1 = capacity q1" using full by (simp add: full_q_def)
  have r0: "readIndex_m q1 = 0" using r k(5) by simp
  have "size_q q1 = writeIndex_m q1" using r0 by (simp add: size_q_def)
  with s have w: "writeIndex_m q1 = capacity q1" by simp
  have st: "buffer_m (force_push q1 x) ! (unat (writeIndex_m q1) + unat (padding_m q1)) = x"
    using i by (rule force_push_stores)
  have e: "writeIndex_m (force_push q1 x) = readIndex_m (force_push q1 x)"
    using f(2) by (simp add: empty_q_def)
  have "contents q1 = xs" using l k(2) by simp
  with p s w st e f show ?thesis by auto
qed


theorem C1_witness:
  "platform_ok 64 8 \<and> (1 :: size_t) \<noteq> - 1
   \<and> SPSCQueue 64 8 1 (0::nat) =
     Inr \<lparr> capacity_m = 2, padding_m = 8, buffer_m = replicate 18 0,
           writeIndex_m = 0, readIndexCache_m = 0, paddingCache_m = 8,
           readIndex_m = 0, writeIndexCache_m = 0, capacityCache_m = 2 \<rparr>
   \<and> length [10::nat] =
       unat (capacity \<lparr> capacity_m = 2, padding_m = 8, buffer_m = replicate 18 (0::nat),
           writeIndex_m = 0, readIndexCache_m = 0, paddingCache_m = 8,
           readIndex_m = 0, writeIndexCache_m = 0, capacityCache_m = 2 \<rparr>)
   \<and> (\<exists>q1. push_all push
           \<lparr> capacity_m = 2, padding_m = 8, buffer_m = replicate 18 (0::nat),
             writeIndex_m = 0, readIndexCache_m = 0, paddingCache_m = 8,
             readIndex_m = 0, writeIndexCache_m = 0, capacityCache_m = 2 \<rparr> [10] = Some q1
           \<and> size_q q1 = capacity q1
           \<and> writeIndex_m q1 = capacity q1
           \<and> buffer_m (force_push q1 20) ! (unat (writeIndex_m q1) + unat (padding_m q1)) = 20
           \<and> writeIndex_m (force_push q1 20) = readIndex_m (force_push q1 20)
           \<and> size_q (force_push q1 20) = 0
           \<and> empty_q (force_push q1 20)
           \<and> fst (try_pop (force_push q1 20)) = False
           \<and> pop (force_push q1 20) = None
           \<and> read_value (force_push q1 20) (readIndex_m (force_push q1 20)) = hd [10])"
proof -
  have h2: "(1 :: size_t) \<noteq> - 1" by simp
  have h4: "length [10::nat] =
       unat (capacity \<lparr> capacity_m = 2, padding_m = 8, buffer_m = replicate 18 (0::nat),
           writeIndex_m = 0, readIndexCache_m = 0, paddingCache_m = 8,
           readIndex_m = 0, writeIndexCache_m = 0, capacityCache_m = 2 \<rparr>)"
    by (simp add: capacity_def)
  note c = C1_force_push_on_full [OF platform_64_8 h2 construct_64_8_1 h4, of 20]
  show ?thesis by (intro conjI) (rule platform_64_8 h2 construct_64_8_1 h4 c)+
qed







text \<open>
  C6: a queue constructed with capacity 1 has \<open>capacity() = 1\<close>; the first
  \<^verbatim>\<open>try_push\<close> succeeds, the queue is then not empty, a second \<^verbatim>\<open>try_push\<close> returns
  false, a \<^verbatim>\<open>pop\<close> returns the pushed value, and a further \<^verbatim>\<open>try_push\<close> succeeds.
\<close>

theorem C6_capacity_one:
  assumes pl: "platform_ok cls sz"
  shows "\<exists>q0 q1 q2 q3 q4.
           SPSCQueue cls sz 1 d = Inr q0 \<and> capacity q0 = 1
           \<and> try_push q0 a = (True, q1) \<and> \<not> empty_q q1
           \<and> try_push q1 b = (False, q2)
           \<and> pop q2 = Some (q3, a)
           \<and> try_push q3 c = (True, q4)"
proof -
  from padding_bounds(3) [OF pl] have "unat (1 :: size_t) + 1 + 2 * unat (padding cls sz) < 2 ^ 64"
    by simp
  from SPSCQueue_ok [OF pl _ this, of d] obtain q0 where q0: "SPSCQueue cls sz 1 d = Inr q0"
    by simp
  have ne: "(1 :: size_t) \<noteq> - 1" by simp
  note k = constructed_inv [OF pl ne q0]
  obtain b1 q1 where t1: "try_push q0 a = (b1, q1)" by (cases "try_push q0 a")
  note e1 = try_push_effect [OF k(1) t1]
  have c1: "capacity q1 = 1" using try_push_capacity [OF t1] k(3) by simp
  have b1: "b1" using e1(3) k(2,3) by (simp add: full_iff_length)
  have l1: "contents q1 = [a]" using e1(2) b1 k(2) by simp
  have ne1: "\<not> empty_q q1" using l1 empty_iff_contents [OF e1(1)] by simp
  obtain b2 q2 where t2: "try_push q1 b = (b2, q2)" by (cases "try_push q1 b")
  note e2 = try_push_effect [OF e1(1) t2]
  have c2: "capacity q2 = 1" using try_push_capacity [OF t2] c1 by simp
  have b2: "\<not> b2" using e2(3) l1 c1 by (simp add: full_iff_length)
  have l2: "contents q2 = [a]" using e2(2) b2 l1 by simp
  have "\<not> empty_q q2" using l2 empty_iff_contents [OF e2(1)] by simp
  then obtain q3 x where p3: "pop q2 = Some (q3, x)"
    using pop_blocks_iff [OF e2(1)] by (cases "pop q2") auto
  note e3 = pop_effect [OF e2(1) p3]
  have x: "x = a" and l3: "contents q3 = []" using e3(2) l2 by simp_all
  have c3: "capacity q3 = 1" using pop_capacity [OF p3] c2 by simp
  obtain b4 q4 where t4: "try_push q3 c = (b4, q4)" by (cases "try_push q3 c")
  have b4: "b4" using try_push_effect(3) [OF e3(1) t4] l3 c3 by (simp add: full_iff_length)
  have "try_push q0 a = (True, q1)" "try_push q1 b = (False, q2)" "pop q2 = Some (q3, a)"
    "try_push q3 c = (True, q4)"
    using t1 b1 t2 b2 p3 x t4 b4 by simp_all
  with q0 k(3) ne1 show ?thesis by blast
qed


theorem C6_witness:
  "platform_ok 64 8 \<and>
   (\<exists>q0 q1 q2 q3 q4.
      SPSCQueue 64 8 1 (0::nat) = Inr q0 \<and> capacity q0 = 1
      \<and> try_push q0 11 = (True, q1) \<and> \<not> empty_q q1
      \<and> try_push q1 22 = (False, q2)
      \<and> pop q2 = Some (q3, 11)
      \<and> try_push q3 33 = (True, q4))"
proof -
  have p: "platform_ok 64 8" by (simp add: platform_ok_def)
  from C6_capacity_one [OF p, of "0::nat" 11 22 33] p show ?thesis by blast
qed

text \<open>
  C7, as stated, does not hold in every full state: \<^verbatim>\<open>force_push\<close> advances the write
  index without refreshing the producer's copy of the read index. After
  \<^verbatim>\<open>push(1); pop; force_push(2); force_push(3)\<close> on a queue of capacity 2 the queue is
  full (2 elements) and the stale copy differs from the next write index, so
  \<^verbatim>\<open>try_push(4)\<close> skips the refresh, returns true, overwrites a slot and moves the write
  index onto the read index.
\<close>

theorem C7_counterexample:
  "SPSCQueue 64 8 2 (0::nat) =
     Inr \<lparr> capacity_m = 3, padding_m = 8, buffer_m = replicate 19 0,
           writeIndex_m = 0, readIndexCache_m = 0, paddingCache_m = 8,
           readIndex_m = 0, writeIndexCache_m = 0, capacityCache_m = 3 \<rparr>
   \<and> run_ops \<lparr> capacity_m = 3, padding_m = 8, buffer_m = replicate 19 (0::nat),
           writeIndex_m = 0, readIndexCache_m = 0, paddingCache_m = 8,
           readIndex_m = 0, writeIndexCache_m = 0, capacityCache_m = 3 \<rparr>
         [Push 1, Pop, ForcePush 2, ForcePush 3]
       = Some (\<lparr> capacity_m = 3, padding_m = 8,
                 buffer_m = (replicate 19 0)[8 := 1, 9 := 2, 10 := 3],
                 writeIndex_m = 0, readIndexCache_m = 0, paddingCache_m = 8,
                 readIndex_m = 1, writeIndexCache_m = 1, capacityCache_m = 3 \<rparr>,
               [1, 2, 3], [1])
   \<and> full_q \<lparr> capacity_m = 3, padding_m = 8,
                 buffer_m = (replicate 19 (0::nat))[8 := 1, 9 := 2, 10 := 3],
                 writeIndex_m = 0, readIndexCache_m = 0, paddingCache_m = 8,
                 readIndex_m = 1, writeIndexCache_m = 1, capacityCache_m = 3 \<rparr>
   \<and> try_push \<lparr> capacity_m = 3, padding_m = 8,
                 buffer_m = (replicate 19 (0::nat))[8 := 1, 9 := 2, 10 := 3],
                 writeIndex_m = 0, readIndexCache_m = 0, paddingCache_m = 8,
                 readIndex_m = 1, writeIndexCache_m = 1, capacityCache_m = 3 \<rparr> 4
       = (True, \<lparr> capacity_m = 3, padding_m = 8,
                 buffer_m = (replicate 19 0)[8 := 1, 9 := 2, 10 := 3, 8 := 4],
                 writeIndex_m = 1, readIndexCache_m = 0, paddingCache_m = 8,
                 readIndex_m = 1, writeIndexCache_m = 1, capacityCache_m = 3 \<rparr>)"
  by (simp add: construct_64_8_2 eval_spsc)


text \<open>
  C7 (amended): in every full state reached from a constructed queue by \<^verbatim>\<open>push\<close>,
  \<^verbatim>\<open>try_push\<close>, \<^verbatim>\<open>pop\<close> and \<^verbatim>\<open>try_pop\<close> (no \<^verbatim>\<open>force_push\<close>), \<^verbatim>\<open>try_push\<close> returns
  false and the state after the call is the state before it with only the producer's
  copy of the read index refreshed: write index, read index and all slots are unchanged.
\<close>

theorem C7_full_try_push_fails:
  assumes "platform_ok cls sz" and "c \<noteq> - 1" and "SPSCQueue cls sz c d = Inr q0"
    and "no_force ops" and "run_ops q0 ops = Some (q, ins, outs)"
    and "full_q q"
  shows "try_push q v = (False, q\<lparr>readIndexCache_m := readIndex_m q\<rparr>)"
  using try_emplace_full [OF reachable_inv(1) [OF assms(1-5)] assms(6)]
  by (simp add: try_push_def)

theorem C7_witness:
  "platform_ok 64 8 \<and> (2 :: size_t) \<noteq> - 1
   \<and> SPSCQueue 64 8 2 (0::nat) =
     Inr \<lparr> capacity_m = 3, padding_m = 8, buffer_m = replicate 19 0,
           writeIndex_m = 0, readIndexCache_m = 0, paddingCache_m = 8,
           readIndex_m = 0, writeIndexCache_m = 0, capacityCache_m = 3 \<rparr>
   \<and> no_force [Push (1::nat), Pop, Push 2, TryPush 3]
   \<and> run_ops \<lparr> capacity_m = 3, padding_m = 8, buffer_m = replicate 19 (0::nat),
           writeIndex_m = 0, readIndexCache_m = 0, paddingCache_m = 8,
           readIndex_m = 0, writeIndexCache_m = 0, capacityCache_m = 3 \<rparr>
         [Push 1, Pop, Push 2, TryPush 3]
       = Some (\<lparr> capacity_m = 3, padding_m = 8,
                 buffer_m = (replicate 19 0)[8 := 1, 9 := 2, 10 := 3],
                 writeIndex_m = 0, readIndexCache_m = 1, paddingCache_m = 8,
                 readIndex_m = 1, writeIndexCache_m = 1, capacityCache_m = 3 \<rparr>,
               [1, 2, 3], [1])
   \<and> full_q \<lparr> capacity_m = 3, padding_m = 8,
                 buffer_m = (replicate 19 (0::nat))[8 := 1, 9 := 2, 10 := 3],
                 writeIndex_m = 0, readIndexCache_m = 1, paddingCache_m = 8,
                 readIndex_m = 1, writeIndexCache_m = 1, capacityCache_m = 3 \<rparr>
   \<and> try_push \<lparr> capacity_m = 3, padding_m = 8,
                 buffer_m = (replicate 19 (0::nat))[8 := 1, 9 := 2, 10 := 3],
                 writeIndex_m = 0, readIndexCache_m = 1, paddingCache_m = 8,
                 readIndex_m = 1, writeIndexCache_m = 1, capacityCache_m = 3 \<rparr> 4
       = (False, \<lparr> capacity_m = 3, padding_m = 8,
                 buffer_m = (replicate 19 (0::nat))[8 := 1, 9 := 2, 10 := 3],
                 writeIndex_m = 0, readIndexCache_m = 1, paddingCache_m = 8,
                 readIndex_m = 1, writeIndexCache_m = 1, capacityCache_m = 3 \<rparr>
                   \<lparr>readIndexCache_m := 1\<rparr>)"
proof -
  have h2: "(2 :: size_t) \<noteq> - 1" by simp
  have h4: "no_force [Push (1::nat), Pop, Push 2, TryPush 3]" by (simp add: no_force_def)
  have h5: "run_ops \<lparr> capacity_m = 3, padding_m = 8, buffer_m = replicate 19 (0::nat),
           writeIndex_m = 0, readIndexCache_m = 0, paddingCache_m = 8,
           readIndex_m = 0, writeIndexCache_m = 0, capacityCache_m = 3 \<rparr>
         [Push 1, Pop, Push 2, TryPush 3]
       = Some (\<lparr> capacity_m = 3, padding_m = 8,
                 buffer_m = (replicate 19 0)[8 := 1, 9 := 2, 10 := 3],
                 writeIndex_m = 0, readIndexCache_m = 1, paddingCache_m = 8,
                 readIndex_m = 1, writeIndexCache_m = 1, capacityCache_m = 3 \<rparr>,
               [1, 2, 3], [1])"
    by (simp add: eval_spsc)
  have h6: "full_q \<lparr> capacity_m = 3, padding_m = 8,
                 buffer_m = (replicate 19 (0::nat))[8 := 1, 9 := 2, 10 := 3],
                 writeIndex_m = 0, readIndexCache_m = 1, paddingCache_m = 8,
                 readIndex_m = 1, writeIndexCache_m = 1, capacityCache_m = 3 \<rparr>"
    by (simp add: eval_spsc)
  have c: "try_push \<lparr> capacity_m = 3, padding_m = 8,
                 buffer_m = (replicate 19 (0::nat))[8 := 1, 9 := 2, 10 := 3],
                 writeIndex_m = 0, readIndexCache_m = 1, paddingCache_m = 8,
                 readIndex_m = 1, writeIndexCache_m = 1, capacityCache_m = 3 \<rparr> 4
       = (False, \<lparr> capacity_m = 3, padding_m = 8,
                 buffer_m = (replicate 19 (0::nat))[8 := 1, 9 := 2, 10 := 3],
                 writeIndex_m = 0, readIndexCache_m = 1, paddingCache_m = 8,
                 readIndex_m = 1, writeIndexCache_m = 1, capacityCache_m = 3 \<rparr>
                   \<lparr>readIndexCache_m := 1\<rparr>)"
    using C7_full_try_push_fails [OF platform_64_8 h2 construct_64_8_2 h4 h5 h6, of 4] by simp
  show ?thesis by (intro conjI) (rule platform_64_8 h2 construct_64_8_2 h4 h5 h6 c)+
qed

section \<open>The ring mask\<close>

text \<open>
  A ring size accepted by the \<^verbatim>\<open>static_assert\<close> is \<open>2 ^ m - 1\<close>, so masking a position
  with it is the remainder modulo the number of slots.
\<close>

lemma nat_mask_char: "(n::nat) AND (n + 1) = 0 \<Longrightarrow> \<exists>m. n = 2 ^ m - 1"
proof (induction n rule: less_induct)
  case (less n)
  show ?case
  proof (cases "n = 0")
    case True
    then show ?thesis by (intro exI [of _ 0]) simp
  next
    case False
    have d: "(n div 2) AND ((n + 1) div 2) = 0"
      using less.prems by (subst (asm) and_nat_rec) simp
    show ?thesis
    proof (cases "even n")
      case True
      then have "(n + 1) div 2 = n div 2" by auto
      with d have "n div 2 = 0" by simp
      with True False show ?thesis by auto
    next
      case odd: False
      then have e: "(n + 1) div 2 = n div 2 + 1" by auto
      have "n div 2 < n" using False by simp
      from less.IH [OF this] d e obtain m where m: "n div 2 = 2 ^ m - 1" by auto
      have "n = 2 * (n div 2) + 1" using odd by auto
      also have "\<dots> = 2 * (2 ^ m - 1) + 1" using m by simp
      also have "\<dots> = 2 * 2 ^ m - 1"
        using one_le_numeral [of "Num.Bit0 Num.One"] one_le_power [of "2::nat" m] by linarith
      also have "\<dots> = 2 ^ Suc m - 1" by simp
      finally show ?thesis by blast
    qed
  qed
qed

lemma ring_size_pow2:
  assumes ok: "ring_size_ok R" and nm: "R \<noteq> - 1"
  shows "\<exists>m < 64. R = mask m \<and> unat R + 1 = 2 ^ m"
proof -
  have "unat R \<noteq> 2 ^ 64 - 1" using nm unat_max64 by (metis word_unat_eq_iff)
  then have lt: "unat R + 1 < 2 ^ 64" using unat_lt64 [of R] by linarith
  then have i: "unat (R + 1) = unat R + 1" by (rule unat_inc64)
  from ok have "unat (R AND (R + 1)) = 0" by (simp add: ring_size_ok_def)
  then have "unat R AND (unat R + 1) = 0" by (simp add: unsigned_and_eq i)
  from nat_mask_char [OF this] obtain m where m: "unat R = 2 ^ m - 1" by blast
  have p: "unat R + 1 = 2 ^ m" using m one_le_power [of "2::nat" m] by simp
  have m64: "m < 64"
    using lt p power_less_imp_less_exp [of "2::nat" m 64] by simp
  have "R = of_nat (unat R)" by simp
  also have "\<dots> = of_nat (2 ^ m - 1)" by (simp only: m)
  also have "\<dots> = (2 ^ m - 1 :: 64 word)" by (simp add: of_nat_diff)
  also have "\<dots> = mask m" by (simp add: mask_eq_exp_minus_1)
  finally have "R = mask m" .
  with m64 p show ?thesis by blast
qed

lemma and_ring_size:
  assumes ok: "ring_size_ok R" and nm: "R \<noteq> - 1"
  shows "unat (x AND R) = unat x mod (unat R + 1)"
proof -
  from ring_size_pow2 [OF ok nm] obtain m where m: "m < 64" "R = mask m" "unat R + 1 = 2 ^ m"
    by blast
  have "x AND R = take_bit m x" by (simp add: m(2) take_bit_eq_mask)
  then have "unat (x AND R) = take_bit m (unat x)" by (simp add: unsigned_take_bit_eq)
  then show ?thesis using m(3) by (simp add: take_bit_eq_mod)
qed

lemma fq_slot_nat:
  assumes ok: "ring_size_ok R" and nm: "R \<noteq> - 1"
  shows "fq_slot R q i = (unat (mReadPosition q) + i) mod (unat R + 1)"
proof -
  from ring_size_pow2 [OF ok nm] obtain m where m: "m < 64" "unat R + 1 = 2 ^ m"
    by blast
  have dv: "(2::nat) ^ m dvd 2 ^ 64" using m(1) by (intro le_imp_power_dvd) simp
  have "unat (mReadPosition q + of_nat i) = (unat (mReadPosition q) + i) mod 2 ^ 64"
    by (simp add: unat_word_ariths unat_of_nat mod_add_right_eq)
  then have "fq_slot R q i = (unat (mReadPosition q) + i) mod 2 ^ 64 mod 2 ^ m"
    using m(2) by (simp add: fq_slot_def and_ring_size [OF ok nm])
  also have "\<dots> = (unat (mReadPosition q) + i) mod 2 ^ m"
    using dv by (rule mod_mod_cancel)
  finally show ?thesis using m(2) by simp
qed

lemma fq_slot_lt:
  assumes "fq_inv R q"
  shows "fq_slot R q i < length (mRingBuffer q)"
proof -
  from assms have ok: "ring_size_ok R" and nm: "R \<noteq> - 1"
    and len: "length (mRingBuffer q) = unat R + 1"
    by (simp_all add: fq_inv_def)
  show ?thesis unfolding fq_slot_nat [OF ok nm] len by simp
qed

lemma mod_add_inj:
  fixes a :: nat
  assumes "(a + i) mod N = (a + j) mod N" and "i < N" and "j < N"
  shows "i = j"
proof -
  define b where "b = a mod N"
  have b: "b < N" using assms(2) by (simp add: b_def)
  have e: "(b + i) mod N = (b + j) mod N"
    using assms(1) unfolding b_def mod_add_left_eq .
  have ri: "(b + i) mod N = (if b + i < N then b + i else b + i - N)"
    using b assms(2) by (simp add: mod_if)
  have rj: "(b + j) mod N = (if b + j < N then b + j else b + j - N)"
    using b assms(3) by (simp add: mod_if)
  have "(if b + i < N then b + i else b + i - N) = (if b + j < N then b + j else b + j - N)"
    using e unfolding ri rj .
  then show ?thesis using b assms(2,3) by (auto split: if_splits)
qed

lemma fq_slot_inj:
  assumes "fq_inv R q" and "fq_slot R q i = fq_slot R q j"
    and "i < unat R + 1" and "j < unat R + 1"
  shows "i = j"
proof -
  from assms(1) have ok: "ring_size_ok R" and nm: "R \<noteq> - 1"
    by (simp_all add: fq_inv_def)
  from assms(2) have "(unat (mReadPosition q) + i) mod (unat R + 1)
      = (unat (mReadPosition q) + j) mod (unat R + 1)"
    unfolding fq_slot_nat [OF ok nm] .
  then show ?thesis using assms(3,4) by (rule mod_add_inj)
qed


lemma write_slot:
  "unat (mWritePosition q AND R) = fq_slot R q (fq_len q)"
  by (simp add: fq_slot_def fq_len_def)

lemma read_slot:
  "unat (mReadPosition q AND R) = fq_slot R q 0"
  by (simp add: fq_slot_def)

section \<open>Effect of the sentinel-tracked operations on the queued elements\<close>

lemma fq_invD:
  assumes "fq_inv R q"
  shows "ring_size_ok R" and "R \<noteq> - 1" and "length (mRingBuffer q) = unat R + 1"
    and "fq_len q \<le> unat R + 1"
    and "\<And>i. i < fq_len q \<Longrightarrow> mRingBuffer q ! fq_slot R q i \<noteq> 0"
    and "\<And>j. j < length (mRingBuffer q) \<Longrightarrow> (\<And>i. i < fq_len q \<Longrightarrow> fq_slot R q i \<noteq> j)
           \<Longrightarrow> mRingBuffer q ! j = 0"
    and "unat R + 1 < 2 ^ 64"
proof -
  show a: "ring_size_ok R" and b: "R \<noteq> - 1" and "length (mRingBuffer q) = unat R + 1"
    and "fq_len q \<le> unat R + 1"
    using assms by (simp_all add: fq_inv_def)
  show "mRingBuffer q ! fq_slot R q i \<noteq> 0" if "i < fq_len q" for i
    using assms that by (simp add: fq_inv_def)
  show "mRingBuffer q ! j = 0"
    if "j < length (mRingBuffer q)" "\<And>i. i < fq_len q \<Longrightarrow> fq_slot R q i \<noteq> j" for j
    using assms that unfolding fq_inv_def by blast
  have "unat R \<noteq> 2 ^ 64 - 1" using b unat_max64 by (metis word_unat_eq_iff)
  then show "unat R + 1 < 2 ^ 64" using unat_lt64 [of R] by linarith
qed

lemma slot_free:
  assumes inv: "fq_inv R q" and room: "fq_len q < unat R + 1"
  shows "mRingBuffer q ! unat (mWritePosition q AND R) = 0"
proof -
  note d = fq_invD [OF inv]
  have "mRingBuffer q ! fq_slot R q (fq_len q) = 0"
  proof (rule d(6))
    show "fq_slot R q (fq_len q) < length (mRingBuffer q)" using inv by (rule fq_slot_lt)
    fix i assume i: "i < fq_len q"
    show "fq_slot R q i \<noteq> fq_slot R q (fq_len q)"
    proof
      assume "fq_slot R q i = fq_slot R q (fq_len q)"
      from fq_slot_inj [OF inv this] i room show False by simp
    qed
  qed
  then show ?thesis by (simp only: write_slot)
qed


lemma slot_empty:
  assumes inv: "fq_inv R q" and e: "fq_len q = 0"
  shows "mRingBuffer q ! unat (mReadPosition q AND R) = 0"
    and "mWritePosition q = mReadPosition q"
proof -
  have "mRingBuffer q ! fq_slot R q 0 = 0"
    using fq_invD(6) [OF inv, of "fq_slot R q 0"] fq_slot_lt [OF inv, of 0] e by simp
  then show "mRingBuffer q ! unat (mReadPosition q AND R) = 0" by (simp only: read_slot)
  from e have "mWritePosition q - mReadPosition q = 0"
    by (simp add: fq_len_def unat_eq_zero)
  then show "mWritePosition q = mReadPosition q" by simp
qed

lemma store_effect:
  fixes q :: fastq and v :: ptr
  assumes inv: "fq_inv R q" and room: "fq_len q < unat R + 1" and v: "v \<noteq> 0"
  defines "q' \<equiv> q\<lparr>mRingBuffer := (mRingBuffer q)[unat (mWritePosition q AND R) := v],
                    mWritePosition := mWritePosition q + 1\<rparr>"
  shows "fq_inv R q'" and "fq_contents R q' = fq_contents R q @ [v]"
proof -
  note d = fq_invD [OF inv]
  let ?n = "fq_len q"
  have ws: "unat (mWritePosition q AND R) = fq_slot R q ?n" by (rule write_slot)
  have e: "mWritePosition q + 1 - mReadPosition q = (mWritePosition q - mReadPosition q) + 1"
    by simp
  have "fq_len q' = unat (mWritePosition q + 1 - mReadPosition q)"
    by (simp add: fq_len_def q'_def)
  also have "\<dots> = unat ((mWritePosition q - mReadPosition q) + 1)" by (simp only: e)
  also have "\<dots> = unat (mWritePosition q - mReadPosition q) + 1"
    using room d(7) by (intro unat_inc64) (simp add: fq_len_def)
  finally have len: "fq_len q' = ?n + 1" by (simp add: fq_len_def)
  have slot: "fq_slot R q' i = fq_slot R q i" for i by (simp add: fq_slot_def q'_def)
  have buf: "mRingBuffer q' = (mRingBuffer q)[fq_slot R q ?n := v]"
    by (simp add: q'_def ws)
  have lt: "fq_slot R q ?n < length (mRingBuffer q)" using inv by (rule fq_slot_lt)
  have ne: "fq_slot R q i \<noteq> fq_slot R q ?n" if "i < ?n" for i
  proof
    assume "fq_slot R q i = fq_slot R q ?n"
    from fq_slot_inj [OF inv this] that room show False by simp
  qed
  have old: "mRingBuffer q' ! fq_slot R q i = mRingBuffer q ! fq_slot R q i" if "i < ?n" for i
    using ne [OF that] by (simp add: buf)
  have new: "mRingBuffer q' ! fq_slot R q ?n = v" using lt by (simp add: buf)
  show "fq_contents R q' = fq_contents R q @ [v]"
    using old new by (simp add: fq_contents_def len slot)
  show "fq_inv R q'"
    unfolding fq_inv_def
  proof (intro conjI allI impI)
    show "ring_size_ok R" and "R \<noteq> - 1" by (rule d(1), rule d(2))
    show "length (mRingBuffer q') = unat R + 1" using d(3) by (simp add: buf)
    show "fq_len q' \<le> unat R + 1" using room len by simp
  next
    fix i assume "i < fq_len q'"
    then have "i < ?n \<or> i = ?n" using len by auto
    then show "mRingBuffer q' ! fq_slot R q' i \<noteq> 0"
      using old [of i] d(5) [of i] new v by (auto simp: slot)
  next
    fix j assume j: "j < length (mRingBuffer q')"
      and out: "\<forall>i < fq_len q'. fq_slot R q' i \<noteq> j"
    have jn: "j \<noteq> fq_slot R q ?n" using out len by (auto simp: slot)
    have "mRingBuffer q ! j = 0"
    proof (rule d(6))
      show "j < length (mRingBuffer q)" using j by (simp add: buf)
      fix i assume "i < ?n"
      then show "fq_slot R q i \<noteq> j" using out len by (auto simp: slot)
    qed
    then show "mRingBuffer q' ! j = 0" using jn by (simp add: buf)
  qed
qed

lemma take_effect:
  fixes q :: fastq
  assumes inv: "fq_inv R q" and ne: "0 < fq_len q"
  defines "q' \<equiv> q\<lparr>mRingBuffer := (mRingBuffer q)[unat (mReadPosition q AND R) := 0],
                    mReadPosition := mReadPosition q + 1\<rparr>"
  shows "mRingBuffer q ! unat (mReadPosition q AND R) \<noteq> 0"
    and "fq_inv R q'"
    and "fq_contents R q = mRingBuffer q ! unat (mReadPosition q AND R) # fq_contents R q'"
proof -
  note d = fq_invD [OF inv]
  let ?n = "fq_len q"
  have rs: "unat (mReadPosition q AND R) = fq_slot R q 0" by (rule read_slot)
  show nz: "mRingBuffer q ! unat (mReadPosition q AND R) \<noteq> 0"
    unfolding rs using ne by (rule d(5))
  have e: "mWritePosition q - (mReadPosition q + 1) = (mWritePosition q - mReadPosition q) - 1"
    by simp
  have x0: "mWritePosition q - mReadPosition q \<noteq> 0"
    using ne by (auto simp: fq_len_def)
  have "fq_len q' = unat (mWritePosition q - (mReadPosition q + 1))"
    by (simp add: fq_len_def q'_def)
  also have "\<dots> = unat ((mWritePosition q - mReadPosition q) - 1)" by (simp only: e)
  also have "\<dots> = unat (mWritePosition q - mReadPosition q) - 1"
    using x0 by (rule unat_dec64)
  finally have len: "fq_len q' = ?n - 1" by (simp add: fq_len_def)
  have slot: "fq_slot R q' i = fq_slot R q (Suc i)" for i
    by (simp add: fq_slot_def q'_def add.assoc)
  have buf: "mRingBuffer q' = (mRingBuffer q)[fq_slot R q 0 := 0]"
    by (simp add: q'_def rs)
  have ne0: "fq_slot R q (Suc i) \<noteq> fq_slot R q 0" if "Suc i < ?n" for i
  proof
    assume "fq_slot R q (Suc i) = fq_slot R q 0"
    from fq_slot_inj [OF inv this] that d(4) show False by simp
  qed
  have old: "mRingBuffer q' ! fq_slot R q (Suc i) = mRingBuffer q ! fq_slot R q (Suc i)"
    if "Suc i < ?n" for i
    using ne0 [OF that] by (simp add: buf)
  obtain n where n: "?n = Suc n" using ne by (cases "?n") auto
  have "fq_contents R q = map (\<lambda>i. mRingBuffer q ! fq_slot R q i) [0..<Suc n]"
    by (simp add: fq_contents_def n)
  also have "\<dots> = mRingBuffer q ! fq_slot R q 0
       # map (\<lambda>i. mRingBuffer q ! fq_slot R q (Suc i)) [0..<n]"
    by (simp only: upt_conv_Cons [of 0 "Suc n"] list.map map_Suc_upt [symmetric] map_map o_def)
  also have "map (\<lambda>i. mRingBuffer q ! fq_slot R q (Suc i)) [0..<n] = fq_contents R q'"
    using old n by (simp add: fq_contents_def len slot)
  finally show "fq_contents R q
      = mRingBuffer q ! unat (mReadPosition q AND R) # fq_contents R q'"
    by (simp only: rs)
  show "fq_inv R q'"
    unfolding fq_inv_def
  proof (intro conjI allI impI)
    show "ring_size_ok R" and "R \<noteq> - 1" by (rule d(1), rule d(2))
    show "length (mRingBuffer q') = unat R + 1" using d(3) by (simp add: buf)
    show "fq_len q' \<le> unat R + 1" using d(4) len by simp
  next
    fix i assume "i < fq_len q'"
    then have i: "Suc i < ?n" using len by simp
    show "mRingBuffer q' ! fq_slot R q' i \<noteq> 0"
      using old [OF i] d(5) [OF i] by (simp add: slot)
  next
    fix j assume j: "j < length (mRingBuffer q')"
      and out: "\<forall>i < fq_len q'. fq_slot R q' i \<noteq> j"
    show "mRingBuffer q' ! j = 0"
    proof (cases "j = fq_slot R q 0")
      case True
      then show ?thesis using j by (simp add: buf)
    next
      case False
      have "mRingBuffer q ! j = 0"
      proof (rule d(6))
        show "j < length (mRingBuffer q)" using j by (simp add: buf)
        fix i assume i: "i < ?n"
        show "fq_slot R q i \<noteq> j"
        proof (cases i)
          case 0
          then show ?thesis using False by simp
        next
          case (Suc k)
          then have "k < fq_len q'" using i len by simp
          with out have "fq_slot R q' k \<noteq> j" by blast
          then show ?thesis by (simp add: slot Suc)
        qed
      qed
      then show ?thesis using False by (simp add: buf)
    qed
  qed
qed

lemma fq_len_contents: "length (fq_contents R q) = fq_len q"
  by (simp add: fq_contents_def)

lemma fpush_ok:
  assumes inv: "fq_inv R q" and room: "fq_len q < unat R + 1" and v: "v \<noteq> 0"
  shows "\<exists>q'. push_x86 R q v = Some q' \<and> push_arm R q v = Some q' \<and> fq_inv R q'
           \<and> fq_contents R q' = fq_contents R q @ [v]
           \<and> mReadPosition q' = mReadPosition q
           \<and> mWritePosition q' = mWritePosition q + 1
           \<and> mExitThread q' = mExitThread q
           \<and> mExitThreadSemaphore q' = mExitThreadSemaphore q
           \<and> mRingBuffer q' ! unat (mWritePosition q AND R) = v"
proof -
  let ?q' = "q\<lparr>mRingBuffer := (mRingBuffer q)[unat (mWritePosition q AND R) := v],
               mWritePosition := mWritePosition q + 1\<rparr>"
  have free: "mRingBuffer q ! unat (mWritePosition q AND R) = 0"
    using inv room by (rule slot_free)
  have p: "push_x86 R q v = Some ?q'" using free by (rule push_x86_store)
  then have pa: "push_arm R q v = Some ?q'" by (simp only: push_variants_equal)
  have "unat (mWritePosition q AND R) < length (mRingBuffer q)"
    unfolding write_slot using inv by (rule fq_slot_lt)
  then have "mRingBuffer ?q' ! unat (mWritePosition q AND R) = v" by simp
  with p pa store_effect [OF inv room v] show ?thesis by simp
qed


lemma fpop_ok:
  assumes inv: "fq_inv R q" and ne: "0 < fq_len q"
  shows "\<exists>q' x. pop_x86 R q = Some (q', x) \<and> pop_arm R q = Some (q', x) \<and> x \<noteq> 0
           \<and> fq_inv R q' \<and> fq_contents R q = x # fq_contents R q'
           \<and> mReadPosition q' = mReadPosition q + 1
           \<and> mWritePosition q' = mWritePosition q
           \<and> mExitThread q' = mExitThread q
           \<and> mExitThreadSemaphore q' = mExitThreadSemaphore q"
proof -
  let ?q' = "q\<lparr>mRingBuffer := (mRingBuffer q)[unat (mReadPosition q AND R) := 0],
               mReadPosition := mReadPosition q + 1\<rparr>"
  let ?x = "mRingBuffer q ! unat (mReadPosition q AND R)"
  note t = take_effect [OF inv ne]
  have "pop_x86 R q = Some (?q', ?x)" using t(1) by (rule pop_x86_take)
  moreover have "pop_arm R q = Some (?q', ?x)" using t(1) by (rule pop_arm_take)
  ultimately show ?thesis using t by simp
qed

lemma fpop_empty:
  assumes inv: "fq_inv R q" and e: "fq_len q = 0"
  shows "pop_x86 R q =
           (if mExitThread q = mReadPosition q \<and> mExitThreadSemaphore q then Some (q, 0)
            else None)"
    and "pop_arm R q = (if mExitThread q = mReadPosition q then Some (q, 0) else None)"
proof -
  note s = slot_empty(1) [OF inv e]
  show "pop_x86 R q =
           (if mExitThread q = mReadPosition q \<and> mExitThreadSemaphore q then Some (q, 0)
            else None)"
    using s by (auto simp: pop_x86_eos pop_x86_spin)
  show "pop_arm R q = (if mExitThread q = mReadPosition q then Some (q, 0) else None)"
    using s by (auto simp: pop_arm_eos pop_arm_spin)
qed

lemma stopQueue_view:
  "fq_inv R (stopQueue q) = fq_inv R q"
  "fq_contents R (stopQueue q) = fq_contents R q"
  "fq_len (stopQueue q) = fq_len q"
  "mExitThread (stopQueue q) = mWritePosition q"
  "mExitThreadSemaphore (stopQueue q)"
  "mWritePosition (stopQueue q) = mWritePosition q"
  "mReadPosition (stopQueue q) = mReadPosition q"
  by (simp_all add: stopQueue_def fq_inv_def fq_contents_def fq_len_def fq_slot_def)

lemma init_view:
  assumes ok: "ring_size_ok R" and nm: "R \<noteq> - 1"
  shows "fq_inv R (init_x86 R)" and "fq_contents R (init_x86 R) = []"
    and "fq_inv R (init_arm R)" and "fq_contents R (init_arm R) = []"
proof -
  have "unat R \<noteq> 2 ^ 64 - 1" using nm unat_max64 by (metis word_unat_eq_iff)
  then have "unat R + 1 < 2 ^ 64" using unat_lt64 [of R] by linarith
  then have i: "unat (R + 1) = unat R + 1" by (rule unat_inc64)
  show "fq_inv R (init_x86 R)" using ok nm i
    by (auto simp add: fq_inv_def init_x86_def fq_len_def nth_Cons')
  show "fq_inv R (init_arm R)" using ok nm i
    by (auto simp add: fq_inv_def init_arm_def fq_len_def nth_Cons')
  show "fq_contents R (init_x86 R) = []" by (simp add: fq_contents_def init_x86_def fq_len_def)
  show "fq_contents R (init_arm R) = []" by (simp add: fq_contents_def init_arm_def fq_len_def)
qed

lemma fpush_all_ok:
  assumes "fq_inv R q" and "fq_len q + length xs \<le> unat R + 1" and "0 \<notin> set xs"
    and "pushf = push_x86 R \<or> pushf = push_arm R"
  shows "\<exists>q'. push_all pushf q xs = Some q' \<and> fq_inv R q'
           \<and> fq_contents R q' = fq_contents R q @ xs
           \<and> mReadPosition q' = mReadPosition q
           \<and> mWritePosition q' = mWritePosition q + of_nat (length xs)
           \<and> mExitThread q' = mExitThread q
           \<and> mExitThreadSemaphore q' = mExitThreadSemaphore q"
  using assms(1-3)
proof (induction xs arbitrary: q)
  case Nil
  then show ?case by simp
next
  case (Cons v xs)
  have room: "fq_len q < unat R + 1" using Cons.prems(2) by simp
  have v: "v \<noteq> 0" using Cons.prems(3) by auto
  from fpush_ok [OF Cons.prems(1) room v] assms(4) obtain q1 where
    p: "pushf q v = Some q1" and i: "fq_inv R q1"
    and c: "fq_contents R q1 = fq_contents R q @ [v]"
    and f: "mReadPosition q1 = mReadPosition q" "mWritePosition q1 = mWritePosition q + 1"
      "mExitThread q1 = mExitThread q" "mExitThreadSemaphore q1 = mExitThreadSemaphore q"
    by auto
  have l: "fq_len q1 = fq_len q + 1"
    using c fq_len_contents [of R q1] fq_len_contents [of R q] by simp
  have "fq_len q1 + length xs \<le> unat R + 1" using l Cons.prems(2) by simp
  moreover have "0 \<notin> set xs" using Cons.prems(3) by simp
  ultimately obtain q' where
    "push_all pushf q1 xs = Some q'" "fq_inv R q'"
    "fq_contents R q' = fq_contents R q1 @ xs"
    "mReadPosition q' = mReadPosition q1"
    "mWritePosition q' = mWritePosition q1 + of_nat (length xs)"
    "mExitThread q' = mExitThread q1"
    "mExitThreadSemaphore q' = mExitThreadSemaphore q1"
    using Cons.IH [OF i] by blast
  then show ?case using p c f by simp
qed

lemma fpop_n_ok:
  assumes "fq_inv R q" and "n \<le> fq_len q"
    and "popf = pop_x86 R \<or> popf = pop_arm R"
  shows "\<exists>q'. pop_n popf q n = Some (q', take n (fq_contents R q)) \<and> fq_inv R q'
           \<and> fq_contents R q' = drop n (fq_contents R q)
           \<and> mReadPosition q' = mReadPosition q + of_nat n
           \<and> mWritePosition q' = mWritePosition q
           \<and> mExitThread q' = mExitThread q
           \<and> mExitThreadSemaphore q' = mExitThreadSemaphore q"
  using assms(1,2)
proof (induction n arbitrary: q)
  case 0
  then show ?case by simp
next
  case (Suc n)
  have ne: "0 < fq_len q" using Suc.prems(2) by simp
  from fpop_ok [OF Suc.prems(1) ne] assms(3) obtain q1 x where
    p: "popf q = Some (q1, x)" and i: "fq_inv R q1"
    and c: "fq_contents R q = x # fq_contents R q1"
    and f: "mReadPosition q1 = mReadPosition q + 1" "mWritePosition q1 = mWritePosition q"
      "mExitThread q1 = mExitThread q" "mExitThreadSemaphore q1 = mExitThreadSemaphore q"
    by auto
  have l: "fq_len q = fq_len q1 + 1"
    using c fq_len_contents [of R q1] fq_len_contents [of R q] by simp
  have "n \<le> fq_len q1" using l Suc.prems(2) by simp
  from Suc.IH [OF i this] obtain q' where
    "pop_n popf q1 n = Some (q', take n (fq_contents R q1))" "fq_inv R q'"
    "fq_contents R q' = drop n (fq_contents R q1)"
    "mReadPosition q' = mReadPosition q1 + of_nat n"
    "mWritePosition q' = mWritePosition q1"
    "mExitThread q' = mExitThread q1"
    "mExitThreadSemaphore q' = mExitThreadSemaphore q1"
    by blast
  then show ?case using p c f by simp
qed

section \<open>Shutdown and runs of the sentinel-tracked queue\<close>

lemma drain_after_stop:
  assumes inv0: "fq_inv R q0" and c0: "fq_contents R q0 = []"
    and nn: "0 \<notin> set xs" and len: "length xs \<le> unat R + 1"
    and pf: "pushf = push_x86 R \<or> pushf = push_arm R"
  shows "\<exists>q1. push_all pushf q0 xs = Some q1
           \<and> (\<exists>q2. pop_n (pop_x86 R) (stopQueue q1) (length xs) = Some (q2, xs)
                  \<and> pop_x86 R q2 = Some (q2, 0))
           \<and> (\<exists>q2. pop_n (pop_arm R) (stopQueue q1) (length xs) = Some (q2, xs)
                  \<and> pop_arm R q2 = Some (q2, 0))"
proof -
  have l0: "fq_len q0 = 0" using c0 fq_len_contents [of R q0] by simp
  then have "fq_len q0 + length xs \<le> unat R + 1" using len by simp
  from fpush_all_ok [OF inv0 this nn pf] c0 obtain q1 where
    p: "push_all pushf q0 xs = Some q1" and i1: "fq_inv R q1"
    and c1: "fq_contents R q1 = xs"
    by auto
  let ?s = "stopQueue q1"
  have inv_s: "fq_inv R ?s" and cs: "fq_contents R ?s = xs" and ls: "length xs \<le> fq_len ?s"
    using i1 c1 fq_len_contents [of R q1] by (simp_all add: stopQueue_view)
  have fin: "\<exists>q2. pop_n popf ?s (length xs) = Some (q2, xs)
        \<and> pop_x86 R q2 = Some (q2, 0) \<and> pop_arm R q2 = Some (q2, 0)"
    if "popf = pop_x86 R \<or> popf = pop_arm R" for popf
  proof -
    from fpop_n_ok [OF inv_s ls that] cs obtain q2 where
      n: "pop_n popf ?s (length xs) = Some (q2, xs)" and i2: "fq_inv R q2"
      and c2: "fq_contents R q2 = []"
      and f: "mWritePosition q2 = mWritePosition ?s" "mExitThread q2 = mExitThread ?s"
        "mExitThreadSemaphore q2 = mExitThreadSemaphore ?s"
      by auto
    have l2: "fq_len q2 = 0" using c2 fq_len_contents [of R q2] by simp
    have "mExitThread q2 = mReadPosition q2"
      using slot_empty(2) [OF i2 l2] f by (simp add: stopQueue_view)
    moreover have "mExitThreadSemaphore q2" using f by (simp add: stopQueue_view)
    ultimately have "pop_x86 R q2 = Some (q2, 0)" "pop_arm R q2 = Some (q2, 0)"
      using fpop_empty [OF i2 l2] by simp_all
    with n show ?thesis by blast
  qed
  from fin [of "pop_x86 R"] fin [of "pop_arm R"] p show ?thesis by blast
qed



lemmas eval_fq = push_x86_store push_x86_abandon push_x86_spin
  push_arm_store push_arm_abandon push_arm_spin
  pop_x86_take pop_x86_eos pop_x86_spin pop_arm_take pop_arm_eos pop_arm_spin
  stopQueue_def init_x86_def init_arm_def

lemma replicate_2: "replicate 2 x = [x, x]"
  by (simp add: numeral_2_eq_2)


section \<open>Claims about the sentinel-tracked queue\<close>

text \<open>
  C2: in both variants, for a ring size accepted by the \<^verbatim>\<open>static_assert\<close> (with a
  non-empty slot array) and every list of \<open>k\<close> non-null elements with
  \<open>k \<le> RING_BUFFER_SIZE\<close> (and for the full ring, \<open>k = RING_BUFFER_SIZE + 1\<close>, too):
  the \<open>k\<close> pushes on the fresh queue return; after \<^verbatim>\<open>stopQueue\<close> the first \<open>k\<close> pops
  return the pushed values in order, and the next pop returns the null sentinel
  instead of spinning.
\<close>

theorem C2_graceful_shutdown:
  assumes "ring_size_ok R" and "R \<noteq> - 1" and "0 \<notin> set xs" and "length xs \<le> unat R + 1"
  shows "(\<exists>q1 q2. push_all (push_x86 R) (init_x86 R) xs = Some q1
            \<and> pop_n (pop_x86 R) (stopQueue q1) (length xs) = Some (q2, xs)
            \<and> pop_x86 R q2 = Some (q2, 0))
       \<and> (\<exists>q1 q2. push_all (push_arm R) (init_arm R) xs = Some q1
            \<and> pop_n (pop_arm R) (stopQueue q1) (length xs) = Some (q2, xs)
            \<and> pop_arm R q2 = Some (q2, 0))"
proof -
  note i = init_view [OF assms(1,2)]
  from drain_after_stop [OF i(1,2) assms(3,4), of "push_x86 R"]
       drain_after_stop [OF i(3,4) assms(3,4), of "push_arm R"]
  show ?thesis by blast
qed


theorem C2_witness:
  "ring_size_ok 3 \<and> (3 :: 64 word) \<noteq> - 1 \<and> 0 \<notin> set [5, 6 :: ptr]
   \<and> length [5, 6 :: ptr] \<le> unat (3 :: 64 word) + 1
   \<and> (\<exists>q1 q2. push_all (push_x86 3) (init_x86 3) [5, 6] = Some q1
          \<and> pop_n (pop_x86 3) (stopQueue q1) (length [5, 6 :: ptr]) = Some (q2, [5, 6])
          \<and> pop_x86 3 q2 = Some (q2, 0))
   \<and> (\<exists>q1 q2. push_all (push_arm 3) (init_arm 3) [5, 6] = Some q1
          \<and> pop_n (pop_arm 3) (stopQueue q1) (length [5, 6 :: ptr]) = Some (q2, [5, 6])
          \<and> pop_arm 3 q2 = Some (q2, 0))"
proof -
  have h1: "ring_size_ok 3" by (simp add: ring_size_ok_def)
  have h2: "(3 :: 64 word) \<noteq> - 1" by simp
  have h3: "0 \<notin> set [5, 6 :: ptr]" by simp
  have h4: "length [5, 6 :: ptr] \<le> unat (3 :: 64 word) + 1" by simp
  note c = C2_graceful_shutdown [OF h1 h2 h3 h4]
  show ?thesis by (intro conjI) (rule h1 h2 h3 h4 c [THEN conjunct1] c [THEN conjunct2])+
qed








section \<open>Feasible schedules run to their end\<close>







section \<open>First in, first out\<close>



section \<open>Shutdown flag in the push of the two variants\<close>

text \<open>
  C8, as stated, does not hold: both variants read the shutdown flag in the wait loop of
  \<^verbatim>\<open>push\<close>. On a full two-slot queue of either variant (reached by two pushes from its
  own initial state), a \<^verbatim>\<open>push\<close> after \<^verbatim>\<open>stopQueue\<close> returns at once without storing, and
  without \<^verbatim>\<open>stopQueue\<close> it keeps waiting.
\<close>

theorem C8_counterexample:
  "push_all (push_x86 1) (init_x86 1) [5, 6]
     = Some \<lparr>mReadPosition = 0, mWritePosition = 2, mExitThread = 0,
              mExitThreadSemaphore = False, mRingBuffer = [5, 6]\<rparr>
   \<and> push_all (push_arm 1) (init_arm 1) [5, 6]
     = Some \<lparr>mReadPosition = 1, mWritePosition = 3, mExitThread = 0,
              mExitThreadSemaphore = False, mRingBuffer = [6, 5]\<rparr>
   \<and> push_x86 1 (stopQueue \<lparr>mReadPosition = 0, mWritePosition = 2, mExitThread = 0,
              mExitThreadSemaphore = False, mRingBuffer = [5, 6]\<rparr>) 7
     = Some \<lparr>mReadPosition = 0, mWritePosition = 2, mExitThread = 2,
              mExitThreadSemaphore = True, mRingBuffer = [5, 6]\<rparr>
   \<and> push_arm 1 (stopQueue \<lparr>mReadPosition = 1, mWritePosition = 3, mExitThread = 0,
              mExitThreadSemaphore = False, mRingBuffer = [6, 5]\<rparr>) 7
     = Some \<lparr>mReadPosition = 1, mWritePosition = 3, mExitThread = 3,
              mExitThreadSemaphore = True, mRingBuffer = [6, 5]\<rparr>
   \<and> push_x86 1 \<lparr>mReadPosition = 0, mWritePosition = 2, mExitThread = 0,
              mExitThreadSemaphore = False, mRingBuffer = [5, 6]\<rparr> 7 = None
   \<and> push_arm 1 \<lparr>mReadPosition = 1, mWritePosition = 3, mExitThread = 0,
              mExitThreadSemaphore = False, mRingBuffer = [6, 5]\<rparr> 7 = None"
  by (simp add: eval_fq replicate_2)


text \<open>
  C8 (amended): both variants check the shutdown flag in the wait condition of their
  blocking \<^verbatim>\<open>push\<close>, in the same way. In either variant, a \<^verbatim>\<open>push\<close> whose target slot is
  occupied returns at once, leaving the queue as it was, when the shutdown flag is up,
  and keeps waiting when the flag is down; a \<^verbatim>\<open>push\<close> whose target slot is null stores
  the element and advances the write position. The two \<^verbatim>\<open>push\<close> operations do not
  differ.
\<close>

theorem C8_push_checks_flag_in_both:
  "(mRingBuffer q ! unat (mWritePosition q AND R) \<noteq> 0 \<longrightarrow> mExitThreadSemaphore q \<longrightarrow>
      push_x86 R q v = Some q \<and> push_arm R q v = Some q)
   \<and> (mRingBuffer q ! unat (mWritePosition q AND R) \<noteq> 0 \<longrightarrow> \<not> mExitThreadSemaphore q \<longrightarrow>
      push_x86 R q v = None \<and> push_arm R q v = None)
   \<and> (mRingBuffer q ! unat (mWritePosition q AND R) = 0 \<longrightarrow>
      push_x86 R q v =
        Some (q\<lparr>mRingBuffer := (mRingBuffer q)[unat (mWritePosition q AND R) := v],
                 mWritePosition := mWritePosition q + 1\<rparr>)
      \<and> push_arm R q v =
        Some (q\<lparr>mRingBuffer := (mRingBuffer q)[unat (mWritePosition q AND R) := v],
                 mWritePosition := mWritePosition q + 1\<rparr>))
   \<and> push_x86 R q v = push_arm R q v"
  by (simp add: push_x86_abandon push_arm_abandon push_x86_spin push_arm_spin
        push_x86_store push_arm_store push_variants_equal)


theorem C8_witness:
  "mRingBuffer \<lparr>mReadPosition = 0, mWritePosition = 2, mExitThread = 2,
       mExitThreadSemaphore = True, mRingBuffer = [5, 6]\<rparr>
     ! unat (mWritePosition \<lparr>mReadPosition = 0, mWritePosition = 2, mExitThread = 2,
         mExitThreadSemaphore = True, mRingBuffer = [5, 6]\<rparr> AND 1) \<noteq> 0
   \<and> mExitThreadSemaphore \<lparr>mReadPosition = 0, mWritePosition = 2, mExitThread = 2,
       mExitThreadSemaphore = True, mRingBuffer = [5, 6]\<rparr>
   \<and> push_x86 1 \<lparr>mReadPosition = 0, mWritePosition = 2, mExitThread = 2,
       mExitThreadSemaphore = True, mRingBuffer = [5, 6]\<rparr> 7
     = Some \<lparr>mReadPosition = 0, mWritePosition = 2, mExitThread = 2,
       mExitThreadSemaphore = True, mRingBuffer = [5, 6]\<rparr>
   \<and> mRingBuffer \<lparr>mReadPosition = 1, mWritePosition = 3, mExitThread = 3,
       mExitThreadSemaphore = True, mRingBuffer = [6, 5]\<rparr>
     ! unat (mWritePosition \<lparr>mReadPosition = 1, mWritePosition = 3, mExitThread = 3,
         mExitThreadSemaphore = True, mRingBuffer = [6, 5]\<rparr> AND 1) \<noteq> 0
   \<and> mExitThreadSemaphore \<lparr>mReadPosition = 1, mWritePosition = 3, mExitThread = 3,
       mExitThreadSemaphore = True, mRingBuffer = [6, 5]\<rparr>
   \<and> push_arm 1 \<lparr>mReadPosition = 1, mWritePosition = 3, mExitThread = 3,
       mExitThreadSemaphore = True, mRingBuffer = [6, 5]\<rparr> 7
     = Some \<lparr>mReadPosition = 1, mWritePosition = 3, mExitThread = 3,
       mExitThreadSemaphore = True, mRingBuffer = [6, 5]\<rparr>
   \<and> \<not> mExitThreadSemaphore \<lparr>mReadPosition = 0, mWritePosition = 2, mExitThread = 0,
       mExitThreadSemaphore = False, mRingBuffer = [5, 6]\<rparr>
   \<and> push_x86 1 \<lparr>mReadPosition = 0, mWritePosition = 2, mExitThread = 0,
       mExitThreadSemaphore = False, mRingBuffer = [5, 6]\<rparr> 7 = None
   \<and> \<not> mExitThreadSemaphore \<lparr>mReadPosition = 1, mWritePosition = 3, mExitThread = 0,
       mExitThreadSemaphore = False, mRingBuffer = [6, 5]\<rparr>
   \<and> push_arm 1 \<lparr>mReadPosition = 1, mWritePosition = 3, mExitThread = 0,
       mExitThreadSemaphore = False, mRingBuffer = [6, 5]\<rparr> 7 = None
   \<and> mRingBuffer (init_x86 1) ! unat (mWritePosition (init_x86 1) AND 1) = 0
   \<and> push_x86 1 (init_x86 1) 5
     = Some \<lparr>mReadPosition = 0, mWritePosition = 1, mExitThread = 0,
              mExitThreadSemaphore = False, mRingBuffer = [5, 0]\<rparr>
   \<and> mRingBuffer (init_arm 1) ! unat (mWritePosition (init_arm 1) AND 1) = 0
   \<and> push_arm 1 (init_arm 1) 5
     = Some \<lparr>mReadPosition = 1, mWritePosition = 2, mExitThread = 0,
              mExitThreadSemaphore = False, mRingBuffer = [0, 5]\<rparr>"
proof -
  let ?sx = "\<lparr>mReadPosition = 0, mWritePosition = 2, mExitThread = 0,
       mExitThreadSemaphore = False, mRingBuffer = [5, 6 :: ptr]\<rparr>"
  let ?tx = "\<lparr>mReadPosition = 0, mWritePosition = 2, mExitThread = 2,
       mExitThreadSemaphore = True, mRingBuffer = [5, 6 :: ptr]\<rparr>"
  let ?sa = "\<lparr>mReadPosition = 1, mWritePosition = 3, mExitThread = 0,
       mExitThreadSemaphore = False, mRingBuffer = [6, 5 :: ptr]\<rparr>"
  let ?ta = "\<lparr>mReadPosition = 1, mWritePosition = 3, mExitThread = 3,
       mExitThreadSemaphore = True, mRingBuffer = [6, 5 :: ptr]\<rparr>"
  have ox: "mRingBuffer ?tx ! unat (mWritePosition ?tx AND 1) \<noteq> 0" by simp
  have oa: "mRingBuffer ?ta ! unat (mWritePosition ?ta AND 1) \<noteq> 0" by simp
  have ox': "mRingBuffer ?sx ! unat (mWritePosition ?sx AND 1) \<noteq> 0" by simp
  have oa': "mRingBuffer ?sa ! unat (mWritePosition ?sa AND 1) \<noteq> 0" by simp
  have fx: "mExitThreadSemaphore ?tx" and fa: "mExitThreadSemaphore ?ta" by simp_all
  have nx: "\<not> mExitThreadSemaphore ?sx" and na: "\<not> mExitThreadSemaphore ?sa" by simp_all
  have ex: "mRingBuffer (init_x86 1) ! unat (mWritePosition (init_x86 1) AND 1) = 0"
    by (simp add: init_x86_def)
  have ea: "mRingBuffer (init_arm 1) ! unat (mWritePosition (init_arm 1) AND 1) = 0"
    by (simp add: init_arm_def)
  have 1: "push_x86 1 ?tx 7 = Some ?tx"
    using C8_push_checks_flag_in_both [of ?tx 1 7, THEN conjunct1, rule_format, OF ox fx] by simp
  have 2: "push_arm 1 ?ta 7 = Some ?ta"
    using C8_push_checks_flag_in_both [of ?ta 1 7, THEN conjunct1, rule_format, OF oa fa] by simp
  have 3: "push_x86 1 ?sx 7 = None"
    using C8_push_checks_flag_in_both [of ?sx 1 7, THEN conjunct2, THEN conjunct1, rule_format, OF ox' nx] by simp
  have 4: "push_arm 1 ?sa 7 = None"
    using C8_push_checks_flag_in_both [of ?sa 1 7, THEN conjunct2, THEN conjunct1, rule_format, OF oa' na] by simp
  have 5: "push_x86 1 (init_x86 1) 5
     = Some \<lparr>mReadPosition = 0, mWritePosition = 1, mExitThread = 0,
              mExitThreadSemaphore = False, mRingBuffer = [5, 0]\<rparr>"
    using C8_push_checks_flag_in_both [of "init_x86 1" 1 5, THEN conjunct2, THEN conjunct2, THEN conjunct1,
        rule_format, OF ex]
    by (simp add: init_x86_def replicate_2)
  have 6: "push_arm 1 (init_arm 1) 5
     = Some \<lparr>mReadPosition = 1, mWritePosition = 2, mExitThread = 0,
              mExitThreadSemaphore = False, mRingBuffer = [0, 5]\<rparr>"
    using C8_push_checks_flag_in_both [of "init_arm 1" 1 5, THEN conjunct2, THEN conjunct2, THEN conjunct1,
        rule_format, OF ea]
    by (simp add: init_arm_def replicate_2)
  show ?thesis
    by (intro conjI) (rule ox oa fx fa nx na ex ea 1 2 3 4 5 6)+
qed

end
